theory Spec2Isabelle
  imports Complex_Main "HOL-Library.AList" "HOL-Library.Char_ord" "HOL-Library.List_Lexorder"
    "HOL-Library.Product_Lexorder" "HOL-Library.Multiset"
begin

section \<open>Tables\<close>

text \<open>
  The repository works on pandas tables. A cell is a missing value (None, NaN and NaT alike),
  a string, a number or an instant. Numbers are idealised as reals; an instant is the
  number of nanoseconds since the epoch, as pandas stores it. Python strings are written
  as their UTF-8 bytes, so that the Chinese column labels of the source are exact.
\<close>

datatype cell = NA | Str string | Num real | Ts int

text \<open>
  A table is column oriented, as a DataFrame is: the ordered columns, each with one cell
  per row, and the number of rows (the length of the index).
\<close>

record frame =
  nrows :: nat
  cols :: "(string \<times> cell list) list"

definition colnames :: "frame \<Rightarrow> string list" where
  "colnames df = map fst (cols df)"

definition wf_frame :: "frame \<Rightarrow> bool" where
  \<comment> \<open>what \<open>read_excel\<close> delivers: distinct labels, every column as long as the index\<close>
  "wf_frame df = (distinct (colnames df) \<and> list_all (\<lambda>p. length (snd p) = nrows df) (cols df))"

datatype category = LowCycle | TwoNetwork

datatype error =
    MissingColumn category string  \<comment> \<open>\<open>raise Exception\<close> of the required-column loop\<close>
  | NoDateInFilename string        \<comment> \<open>\<open>raise Exception\<close> after \<open>re.search\<close> found nothing\<close>
  | NoFilesFound category          \<comment> \<open>\<open>raise Exception\<close> on an empty file list\<close>
  | KeyError string                \<comment> \<open>a label that is not a column\<close>
  | ValueError                     \<comment> \<open>pandas refuses its arguments\<close>
  | AttributeError                 \<comment> \<open>\<open>.dt\<close> on a column that is not datetime-like\<close>
  | ResampleError                  \<comment> \<open>\<open>resample\<close> cannot lay its bins when every instant is NaT\<close>

definition set_col :: "frame \<Rightarrow> string \<Rightarrow> cell list \<Rightarrow> frame" where
  \<comment> \<open>\<open>df[c] = series\<close>: an existing column keeps its place, a new one goes last\<close>
  "set_col df c vs = df\<lparr>cols := AList.update c vs (cols df)\<rparr>"

definition set_scalar :: "frame \<Rightarrow> string \<Rightarrow> cell \<Rightarrow> frame" where
  \<comment> \<open>\<open>df[c] = value\<close>: the value in every row\<close>
  "set_scalar df c v = set_col df c (replicate (nrows df) v)"

definition get_col :: "frame \<Rightarrow> string \<Rightarrow> error + cell list" where
  \<comment> \<open>\<open>df[c]\<close>\<close>
  "get_col df c = (case map_of (cols df) c of None \<Rightarrow> Inl (KeyError c) | Some vs \<Rightarrow> Inr vs)"

fun select_cols :: "frame \<Rightarrow> string list \<Rightarrow> error + (string \<times> cell list) list" where
  "select_cols df [] = Inr []"
| "select_cols df (c # cs) =
     (case get_col df c of
        Inl e \<Rightarrow> Inl e
      | Inr vs \<Rightarrow> (case select_cols df cs of Inl e \<Rightarrow> Inl e | Inr rest \<Rightarrow> Inr ((c, vs) # rest)))"

definition select :: "frame \<Rightarrow> string list \<Rightarrow> error + frame" where
  \<comment> \<open>\<open>df[list_of_labels]\<close>: the listed columns in the listed order\<close>
  "select df cs = (case select_cols df cs of Inl e \<Rightarrow> Inl e | Inr cs' \<Rightarrow> Inr (df\<lparr>cols := cs'\<rparr>))"

definition column :: "frame \<Rightarrow> string \<Rightarrow> cell list" where
  \<comment> \<open>the cells of a column, for reading a table that was returned\<close>
  "column df c = (case map_of (cols df) c of None \<Rightarrow> [] | Some vs \<Rightarrow> vs)"

definition frame_row :: "frame \<Rightarrow> nat \<Rightarrow> (string \<times> cell) list" where
  "frame_row df i = map (\<lambda>p. (fst p, snd p ! i)) (cols df)"

definition frame_rows :: "frame \<Rightarrow> (string \<times> cell) list list" where
  "frame_rows df = map (frame_row df) [0 ..< nrows df]"

section \<open>The canonical schema\<close>

definition col_xuhao :: string where \<comment> \<open>sequence number: U+5E8F U+53F7\<close>
  "col_xuhao = [CHR 0xE5, CHR 0xBA, CHR 0x8F, CHR 0xE5, CHR 0x8F, CHR 0xB7]"

definition col_guanli_danwei :: string where \<comment> \<open>management unit: U+7BA1 U+7406 U+5355 U+4F4D\<close>
  "col_guanli_danwei = [CHR 0xE7, CHR 0xAE, CHR 0xA1, CHR 0xE7, CHR 0x90, CHR 0x86, CHR 0xE5, CHR 0x8D, CHR 0x95, CHR 0xE4, CHR 0xBD, CHR 0x8D]"

definition col_guanlisuo :: string where \<comment> \<open>management office: U+7BA1 U+7406 U+6240\<close>
  "col_guanlisuo = [CHR 0xE7, CHR 0xAE, CHR 0xA1, CHR 0xE7, CHR 0x90, CHR 0x86, CHR 0xE6, CHR 0x89, CHR 0x80]"

definition col_huanrezhan :: string where \<comment> \<open>heat-exchange station: U+6362 U+70ED U+7AD9\<close>
  "col_huanrezhan = [CHR 0xE6, CHR 0x8D, CHR 0xA2, CHR 0xE7, CHR 0x83, CHR 0xAD, CHR 0xE7, CHR 0xAB, CHR 0x99]"

definition col_cedian_mingcheng :: string where \<comment> \<open>measurement point name: U+6D4B U+70B9 U+540D U+79F0\<close>
  "col_cedian_mingcheng = [CHR 0xE6, CHR 0xB5, CHR 0x8B, CHR 0xE7, CHR 0x82, CHR 0xB9, CHR 0xE5, CHR 0x90, CHR 0x8D, CHR 0xE7, CHR 0xA7, CHR 0xB0]"

definition col_weizhi :: string where \<comment> \<open>location: U+4F4D U+7F6E\<close>
  "col_weizhi = [CHR 0xE4, CHR 0xBD, CHR 0x8D, CHR 0xE7, CHR 0xBD, CHR 0xAE]"

definition col_louceng :: string where \<comment> \<open>floor: U+697C U+5C42\<close>
  "col_louceng = [CHR 0xE6, CHR 0xA5, CHR 0xBC, CHR 0xE5, CHR 0xB1, CHR 0x82]"

definition col_shebei_biaoshi :: string where \<comment> \<open>device id: U+8BBE U+5907 U+6807 U+8BC6\<close>
  "col_shebei_biaoshi = [CHR 0xE8, CHR 0xAE, CHR 0xBE, CHR 0xE5, CHR 0xA4, CHR 0x87, CHR 0xE6, CHR 0xA0, CHR 0x87, CHR 0xE8, CHR 0xAF, CHR 0x86]"

definition col_shuju_shijian :: string where \<comment> \<open>data time: U+6570 U+636E U+65F6 U+95F4\<close>
  "col_shuju_shijian = [CHR 0xE6, CHR 0x95, CHR 0xB0, CHR 0xE6, CHR 0x8D, CHR 0xAE, CHR 0xE6, CHR 0x97, CHR 0xB6, CHR 0xE9, CHR 0x97, CHR 0xB4]"

definition col_shiwen_wendu :: string where \<comment> \<open>room temperature: U+5BA4 U+6E29 U+6E29 U+5EA6 U+0028 U+2103 U+0029\<close>
  "col_shiwen_wendu = [CHR 0xE5, CHR 0xAE, CHR 0xA4, CHR 0xE6, CHR 0xB8, CHR 0xA9, CHR 0xE6, CHR 0xB8, CHR 0xA9, CHR 0xE5, CHR 0xBA, CHR 0xA6, CHR 0x28, CHR 0xE2, CHR 0x84, CHR 0x83, CHR 0x29]"

definition col_baojing_zhuangtai :: string where \<comment> \<open>alarm status: U+62A5 U+8B66 U+72B6 U+6001\<close>
  "col_baojing_zhuangtai = [CHR 0xE6, CHR 0x8A, CHR 0xA5, CHR 0xE8, CHR 0xAD, CHR 0xA6, CHR 0xE7, CHR 0x8A, CHR 0xB6, CHR 0xE6, CHR 0x80, CHR 0x81]"

definition col_yuanwenjian :: string where \<comment> \<open>source file: U+6E90 U+6587 U+4EF6\<close>
  "col_yuanwenjian = [CHR 0xE6, CHR 0xBA, CHR 0x90, CHR 0xE6, CHR 0x96, CHR 0x87, CHR 0xE4, CHR 0xBB, CHR 0xB6]"

definition col_shuju_leixing :: string where \<comment> \<open>data category: U+6570 U+636E U+7C7B U+578B\<close>
  "col_shuju_leixing = [CHR 0xE6, CHR 0x95, CHR 0xB0, CHR 0xE6, CHR 0x8D, CHR 0xAE, CHR 0xE7, CHR 0xB1, CHR 0xBB, CHR 0xE5, CHR 0x9E, CHR 0x8B]"

definition col_huanlu :: string where \<comment> \<open>loop: U+73AF U+8DEF\<close>
  "col_huanlu = [CHR 0xE7, CHR 0x8E, CHR 0xAF, CHR 0xE8, CHR 0xB7, CHR 0xAF]"

definition col_jihua_reliang :: string where \<comment> \<open>planned heat: U+8BA1 U+5212 U+70ED U+91CF U+0028 U+0047 U+004A U+0029\<close>
  "col_jihua_reliang = [CHR 0xE8, CHR 0xAE, CHR 0xA1, CHR 0xE5, CHR 0x88, CHR 0x92, CHR 0xE7, CHR 0x83, CHR 0xAD, CHR 0xE9, CHR 0x87, CHR 0x8F, CHR 0x28, CHR 0x47, CHR 0x4A, CHR 0x29]"

definition col_shunshi_reliang :: string where \<comment> \<open>instantaneous heat: U+77AC U+65F6 U+70ED U+91CF U+0028 U+0047 U+004A U+002F U+0048 U+0029\<close>
  "col_shunshi_reliang = [CHR 0xE7, CHR 0x9E, CHR 0xAC, CHR 0xE6, CHR 0x97, CHR 0xB6, CHR 0xE7, CHR 0x83, CHR 0xAD, CHR 0xE9, CHR 0x87, CHR 0x8F, CHR 0x28, CHR 0x47, CHR 0x4A, CHR 0x2F, CHR 0x48, CHR 0x29]"

definition col_reliang :: string where \<comment> \<open>heat: U+70ED U+91CF U+0028 U+0047 U+004A U+0029\<close>
  "col_reliang = [CHR 0xE7, CHR 0x83, CHR 0xAD, CHR 0xE9, CHR 0x87, CHR 0x8F, CHR 0x28, CHR 0x47, CHR 0x4A, CHR 0x29]"

definition col_shunshi_liuliang :: string where \<comment> \<open>instantaneous flow: U+77AC U+65F6 U+6D41 U+91CF U+0028 U+0054 U+002F U+0048 U+0029\<close>
  "col_shunshi_liuliang = [CHR 0xE7, CHR 0x9E, CHR 0xAC, CHR 0xE6, CHR 0x97, CHR 0xB6, CHR 0xE6, CHR 0xB5, CHR 0x81, CHR 0xE9, CHR 0x87, CHR 0x8F, CHR 0x28, CHR 0x54, CHR 0x2F, CHR 0x48, CHR 0x29]"

definition col_danwei_liuliang :: string where \<comment> \<open>unit flow: U+5355 U+4F4D U+6D41 U+91CF U+0028 U+0054 U+002F U+4E07 U+33A1 U+0029\<close>
  "col_danwei_liuliang = [CHR 0xE5, CHR 0x8D, CHR 0x95, CHR 0xE4, CHR 0xBD, CHR 0x8D, CHR 0xE6, CHR 0xB5, CHR 0x81, CHR 0xE9, CHR 0x87, CHR 0x8F, CHR 0x28, CHR 0x54, CHR 0x2F, CHR 0xE4, CHR 0xB8, CHR 0x87, CHR 0xE3, CHR 0x8E, CHR 0xA1, CHR 0x29]"

definition col_famen_kaidu :: string where \<comment> \<open>valve opening: U+9600 U+95E8 U+5F00 U+5EA6 U+0028 U+0025 U+0029\<close>
  "col_famen_kaidu = [CHR 0xE9, CHR 0x98, CHR 0x80, CHR 0xE9, CHR 0x97, CHR 0xA8, CHR 0xE5, CHR 0xBC, CHR 0x80, CHR 0xE5, CHR 0xBA, CHR 0xA6, CHR 0x28, CHR 0x25, CHR 0x29]"

definition col_sheding :: string where \<comment> \<open>setpoint: U+8BBE U+5B9A U+0028 U+2103 U+0029\<close>
  "col_sheding = [CHR 0xE8, CHR 0xAE, CHR 0xBE, CHR 0xE5, CHR 0xAE, CHR 0x9A, CHR 0x28, CHR 0xE2, CHR 0x84, CHR 0x83, CHR 0x29]"

definition col_fankui :: string where \<comment> \<open>feedback: U+53CD U+9988 U+0028 U+2103 U+0029\<close>
  "col_fankui = [CHR 0xE5, CHR 0x8F, CHR 0x8D, CHR 0xE9, CHR 0xA6, CHR 0x88, CHR 0x28, CHR 0xE2, CHR 0x84, CHR 0x83, CHR 0x29]"

definition col_gongwen :: string where \<comment> \<open>supply temperature: U+4F9B U+6E29 U+0028 U+2103 U+0029\<close>
  "col_gongwen = [CHR 0xE4, CHR 0xBE, CHR 0x9B, CHR 0xE6, CHR 0xB8, CHR 0xA9, CHR 0x28, CHR 0xE2, CHR 0x84, CHR 0x83, CHR 0x29]"

definition col_huiwen :: string where \<comment> \<open>return temperature: U+56DE U+6E29 U+0028 U+2103 U+0029\<close>
  "col_huiwen = [CHR 0xE5, CHR 0x9B, CHR 0x9E, CHR 0xE6, CHR 0xB8, CHR 0xA9, CHR 0x28, CHR 0xE2, CHR 0x84, CHR 0x83, CHR 0x29]"

definition col_gongya :: string where \<comment> \<open>supply pressure: U+4F9B U+538B U+0028 U+004D U+0070 U+0061 U+0029\<close>
  "col_gongya = [CHR 0xE4, CHR 0xBE, CHR 0x9B, CHR 0xE5, CHR 0x8E, CHR 0x8B, CHR 0x28, CHR 0x4D, CHR 0x70, CHR 0x61, CHR 0x29]"

definition col_huiya :: string where \<comment> \<open>return pressure: U+56DE U+538B U+0028 U+004D U+0070 U+0061 U+0029\<close>
  "col_huiya = [CHR 0xE5, CHR 0x9B, CHR 0x9E, CHR 0xE5, CHR 0x8E, CHR 0x8B, CHR 0x28, CHR 0x4D, CHR 0x70, CHR 0x61, CHR 0x29]"

definition col_riqi :: string where \<comment> \<open>date: U+65E5 U+671F\<close>
  "col_riqi = [CHR 0xE6, CHR 0x97, CHR 0xA5, CHR 0xE6, CHR 0x9C, CHR 0x9F]"

definition kw_dihuan :: string where \<comment> \<open>low loop keyword: U+4F4E U+73AF\<close>
  "kw_dihuan = [CHR 0xE4, CHR 0xBD, CHR 0x8E, CHR 0xE7, CHR 0x8E, CHR 0xAF]"

definition kw_erwang :: string where \<comment> \<open>secondary network keyword: U+4E8C U+7F51\<close>
  "kw_erwang = [CHR 0xE4, CHR 0xBA, CHR 0x8C, CHR 0xE7, CHR 0xBD, CHR 0x91]"

definition standard_columns :: "string list" where
  "standard_columns =
     [col_xuhao, col_guanli_danwei, col_guanlisuo, col_huanrezhan, col_cedian_mingcheng,
      col_weizhi, col_louceng, col_shebei_biaoshi, col_shuju_shijian, col_shiwen_wendu,
      col_baojing_zhuangtai, col_yuanwenjian, col_shuju_leixing, col_huanlu,
      col_jihua_reliang, col_shunshi_reliang, col_reliang, col_shunshi_liuliang,
      col_danwei_liuliang, col_famen_kaidu, col_sheding, col_fankui, col_gongwen,
      col_huiwen, col_gongya, col_huiya, col_riqi]"

definition required_low :: "string list" where
  "required_low =
     [col_xuhao, col_guanli_danwei, col_guanlisuo, col_huanrezhan, col_cedian_mingcheng,
      col_weizhi, col_louceng, col_shebei_biaoshi, col_shuju_shijian, col_shiwen_wendu,
      col_baojing_zhuangtai]"

definition required_two :: "string list" where
  "required_two =
     [col_huanlu, col_jihua_reliang, col_shunshi_reliang, col_reliang, col_shunshi_liuliang,
      col_danwei_liuliang, col_famen_kaidu, col_sheding, col_fankui, col_gongwen,
      col_huiwen, col_gongya, col_huiya, col_shuju_shijian]"

section \<open>The schema unifier and the merge orchestrator (merged_data_module.py)\<close>

text \<open>
  What the module takes from outside the repository is a parameter: the directory listing
  and the sheets of the files, pandas' date parser (\<open>errors='coerce'\<close>: an instant or
  NaT; on a column the format is inferred from the column, so the parser sees the column
  too), \<open>strftime('%Y-%m-%d')\<close>, and Python's \<open>str\<close> and \<open>str.strip\<close>. The parser does
  not always return a datetime column: values that carry different UTC offsets come back
  as a column of Python objects, on which the \<open>.dt\<close> accessor raises \<open>AttributeError\<close>.
  \<open>datetimelike\<close> tells whether the parsed column has the accessor.
\<close>

record extern =
  listdir :: "string \<Rightarrow> string list"
  read_excel :: "string \<Rightarrow> frame"
  to_datetime :: "cell list \<Rightarrow> cell \<Rightarrow> int option"
  datetimelike :: "cell list \<Rightarrow> bool"
  to_datetime_str :: "string \<Rightarrow> int option"
  strftime_ymd :: "int \<Rightarrow> string"
  py_str :: "cell \<Rightarrow> string"
  py_strip :: "string \<Rightarrow> string"

definition ts_cell :: "int option \<Rightarrow> cell" where
  "ts_cell t = (case t of None \<Rightarrow> NA | Some n \<Rightarrow> Ts n)"

definition basename :: "string \<Rightarrow> string" where
  \<comment> \<open>\<open>os.path.basename\<close>: what follows the last slash\<close>
  "basename p = rev (takeWhile (\<lambda>c. c \<noteq> CHR ''/'') (rev p))"

definition path_join :: "string \<Rightarrow> string \<Rightarrow> string" where
  \<comment> \<open>\<open>os.path.join\<close> of a directory and a name from its listing\<close>
  "path_join d f = (if d = [] \<or> last d = CHR ''/'' then d @ f else d @ ''/'' @ f)"

text \<open>
  The pattern \<open>(\d{4}-\d{2}-\d{2})\<close> is a \<open>str\<close> pattern without \<open>re.ASCII\<close>, so \<open>\d\<close> is every
  decimal digit of Unicode (the category Nd), the fullwidth digits among them. Python
  matches it on the characters of the name. The strings here are UTF-8 bytes, so a
  character is first read off the bytes that encode it. The table of the decimal digits is
  that of Unicode 14.0, which Python 3.11 carries: 62 ranges of code points.
\<close>

definition decimal_digit_ranges :: "(nat \<times> nat) list" where
  "decimal_digit_ranges =
     [(48, 57), (1632, 1641), (1776, 1785), (1984, 1993), (2406, 2415), (2534, 2543),
      (2662, 2671), (2790, 2799), (2918, 2927), (3046, 3055), (3174, 3183), (3302, 3311),
      (3430, 3439), (3558, 3567), (3664, 3673), (3792, 3801), (3872, 3881), (4160, 4169),
      (4240, 4249), (6112, 6121), (6160, 6169), (6470, 6479), (6608, 6617), (6784, 6793),
      (6800, 6809), (6992, 7001), (7088, 7097), (7232, 7241), (7248, 7257), (42528, 42537),
      (43216, 43225), (43264, 43273), (43472, 43481), (43504, 43513), (43600, 43609),
      (44016, 44025), (65296, 65305), (66720, 66729), (68912, 68921), (69734, 69743),
      (69872, 69881), (69942, 69951), (70096, 70105), (70384, 70393), (70736, 70745),
      (70864, 70873), (71248, 71257), (71360, 71369), (71472, 71481), (71904, 71913),
      (72016, 72025), (72784, 72793), (73040, 73049), (73120, 73129), (92768, 92777),
      (92864, 92873), (93008, 93017), (120782, 120831), (123200, 123209), (123632, 123641),
      (125264, 125273), (130032, 130041)]"

definition is_digit :: "nat \<Rightarrow> bool" where
  \<comment> \<open>\<open>\d\<close>, on a code point\<close>
  "is_digit cp = list_ex (\<lambda>r. fst r \<le> cp \<and> cp \<le> snd r) decimal_digit_ranges"

definition continuation :: "char \<Rightarrow> nat" where
  \<comment> \<open>the six bits that a continuation byte of UTF-8 carries\<close>
  "continuation b = of_char b mod 64"

fun first_char :: "string \<Rightarrow> (nat \<times> string) option" where
  \<comment> \<open>the code point of the first character of a UTF-8 text, and the text behind it;
      nothing when the text does not start with the lead byte of a character\<close>
  "first_char [] = None"
| "first_char (b # bs) =
     (let n = (of_char b :: nat) in
      if n < 128 then Some (n, bs)
      else if 192 \<le> n \<and> n < 224 then
        (case bs of
           b1 # rest \<Rightarrow> Some ((n - 192) * 64 + continuation b1, rest)
         | _ \<Rightarrow> None)
      else if 224 \<le> n \<and> n < 240 then
        (case bs of
           b1 # b2 # rest \<Rightarrow> Some (((n - 224) * 64 + continuation b1) * 64 + continuation b2, rest)
         | _ \<Rightarrow> None)
      else if 240 \<le> n \<and> n < 248 then
        (case bs of
           b1 # b2 # b3 # rest \<Rightarrow>
             Some ((((n - 240) * 64 + continuation b1) * 64 + continuation b2) * 64
                   + continuation b3, rest)
         | _ \<Rightarrow> None)
      else None)"

datatype pattern_item = Digit | Literal char

definition date_pattern :: "pattern_item list" where
  \<comment> \<open>\<open>\d{4}-\d{2}-\d{2}\<close>\<close>
  "date_pattern = [Digit, Digit, Digit, Digit, Literal (CHR ''-''), Digit, Digit,
                   Literal (CHR ''-''), Digit, Digit]"

fun match_here :: "pattern_item list \<Rightarrow> string \<Rightarrow> string option" where
  \<comment> \<open>the pattern matches at the start of the text: what is left of the text behind the
      match\<close>
  "match_here [] s = Some s"
| "match_here (Digit # items) s =
     (case first_char s of
        None \<Rightarrow> None
      | Some (cp, rest) \<Rightarrow> if is_digit cp then match_here items rest else None)"
| "match_here (Literal c # items) s =
     (case s of [] \<Rightarrow> None | b # rest \<Rightarrow> if b = c then match_here items rest else None)"

fun re_search_date :: "string \<Rightarrow> string option" where
  \<comment> \<open>\<open>re.search(r'(\d{4}-\d{2}-\d{2})', s)\<close>: group 1 of the leftmost match\<close>
  "re_search_date [] = None"
| "re_search_date (c # s) =
     (case match_here date_pattern (c # s) of
        Some rest \<Rightarrow> Some (take (length (c # s) - length rest) (c # s))
      | None \<Rightarrow> re_search_date s)"

definition first_missing :: "string list \<Rightarrow> frame \<Rightarrow> string option" where
  \<comment> \<open>the loop over \<open>required_columns\<close>: the first one that is not a column\<close>
  "first_missing required df = find (\<lambda>c. c \<notin> set (colnames df)) required"

definition add_missing_columns :: "frame \<Rightarrow> frame" where
  \<comment> \<open>every standard column that is absent is added, filled with None\<close>
  "add_missing_columns df =
     (let missing_columns = filter (\<lambda>c. c \<notin> set (colnames df)) standard_columns
      in fold (\<lambda>c d. set_scalar d c NA) missing_columns df)"

definition strftime_cell :: "extern \<Rightarrow> cell \<Rightarrow> cell" where
  \<comment> \<open>\<open>.dt.strftime('%Y-%m-%d')\<close>: NaT gives a missing value\<close>
  "strftime_cell ext v = (case v of Ts t \<Rightarrow> Str (strftime_ymd ext t) | _ \<Rightarrow> NA)"

definition process_low_cycle_data :: "extern \<Rightarrow> string \<Rightarrow> error + frame" where
  "process_low_cycle_data ext file_path =
     (let df = read_excel ext file_path in
      case first_missing required_low df of
        Some c \<Rightarrow> Inl (MissingColumn LowCycle c)
      | None \<Rightarrow>
          (let df1 = add_missing_columns df;
               df2 = set_scalar df1 col_yuanwenjian (Str (basename file_path));
               df3 = set_scalar df2 col_shuju_leixing (Str kw_dihuan)
           in case get_col df3 col_shuju_shijian of
                Inl e \<Rightarrow> Inl e
              | Inr raw_time \<Rightarrow>
                  (let times = map (\<lambda>v. ts_cell (to_datetime ext raw_time v)) raw_time;
                       df4 = set_col df3 col_shuju_shijian times
                   in if \<not> datetimelike ext raw_time then Inl AttributeError
                      else
                        (let df5 = set_col df4 col_riqi (map (strftime_cell ext) times)
                         in select df5 standard_columns))))"

definition combine_datetime :: "extern \<Rightarrow> string \<Rightarrow> cell \<Rightarrow> cell" where
  \<comment> \<open>the row function of the second category, which reads the time cell only\<close>
  "combine_datetime ext file_date v =
     (if v \<noteq> NA \<and> py_strip ext (py_str ext v) \<noteq> [] then
        (let time_str = py_strip ext (py_str ext v)
         in if CHR '':'' \<in> set time_str
            then ts_cell (to_datetime_str ext (file_date @ '' '' @ time_str))
            else NA)
      else NA)"

definition process_two_network_data :: "extern \<Rightarrow> string \<Rightarrow> error + frame" where
  "process_two_network_data ext file_path =
     (let filename = basename file_path;
          df = read_excel ext file_path in
      case first_missing required_two df of
        Some c \<Rightarrow> Inl (MissingColumn TwoNetwork c)
      | None \<Rightarrow>
          (let df1 = add_missing_columns df;
               df2 = set_scalar df1 col_yuanwenjian (Str filename);
               df3 = set_scalar df2 col_shuju_leixing (Str kw_erwang)
           in case re_search_date filename of
                None \<Rightarrow> Inl (NoDateInFilename filename)
              | Some file_date \<Rightarrow>
                  (let df4 = set_scalar df3 col_riqi (Str file_date)
                   in case get_col df4 col_shuju_shijian of
                        Inl e \<Rightarrow> Inl e
                      | Inr raw_time \<Rightarrow>
                          select (set_col df4 col_shuju_shijian
                                    (map (combine_datetime ext file_date) raw_time))
                                 standard_columns)))"

definition endswith :: "string \<Rightarrow> string \<Rightarrow> bool" where
  "endswith s suf = (length suf \<le> length s \<and> drop (length s - length suf) s = suf)"

definition startswith :: "string \<Rightarrow> string \<Rightarrow> bool" where
  "startswith s pre = (take (length pre) s = pre)"

fun contains :: "string \<Rightarrow> string \<Rightarrow> bool" where
  \<comment> \<open>\<open>kw in s\<close>\<close>
  "contains kw [] = (kw = [])"
| "contains kw (c # s) = (take (length kw) (c # s) = kw \<or> contains kw s)"

fun find_files_loop :: "string \<Rightarrow> string list \<Rightarrow> string list \<times> string list \<Rightarrow> string list \<times> string list" where
  "find_files_loop data_dir [] acc = acc"
| "find_files_loop data_dir (filename # rest) (low_cycle_files, two_network_files) =
     (if (endswith filename ''.xlsx'' \<or> endswith filename ''.xls'') \<and> \<not> startswith filename ''~$''
      then (if contains kw_dihuan filename
            then find_files_loop data_dir rest
                   (low_cycle_files @ [path_join data_dir filename], two_network_files)
            else if contains kw_erwang filename
            then find_files_loop data_dir rest
                   (low_cycle_files, two_network_files @ [path_join data_dir filename])
            else find_files_loop data_dir rest (low_cycle_files, two_network_files))
      else find_files_loop data_dir rest (low_cycle_files, two_network_files))"

definition find_data_files :: "extern \<Rightarrow> string \<Rightarrow> string list \<times> string list" where
  "find_data_files ext data_dir = find_files_loop data_dir (listdir ext data_dir) ([], [])"

fun first_seen :: "string list \<Rightarrow> string list \<Rightarrow> string list" where
  \<comment> \<open>the labels in the order of their first appearance\<close>
  "first_seen seen [] = []"
| "first_seen seen (c # cs) =
     (if c \<in> set seen then first_seen seen cs else c # first_seen (c # seen) cs)"

definition concat_frames :: "frame list \<Rightarrow> error + frame" where
  \<comment> \<open>\<open>pd.concat(dfs, ignore_index=True)\<close>: the union of the columns, the rows one table
      after the other, a column that a table lacks filled with missing values\<close>
  "concat_frames dfs =
     (if dfs = [] then Inl ValueError
      else Inr \<lparr>nrows = sum_list (map nrows dfs),
                cols = map (\<lambda>c. (c, concat (map (\<lambda>d. case map_of (cols d) c of
                                                      None \<Rightarrow> replicate (nrows d) NA
                                                    | Some vs \<Rightarrow> vs) dfs)))
                         (first_seen [] (concat (map colnames dfs)))\<rparr>)"

fun process_all :: "(string \<Rightarrow> error + frame) \<Rightarrow> string list \<Rightarrow> error + frame list" where
  \<comment> \<open>the loops that process one category's files; the first exception ends them\<close>
  "process_all f [] = Inr []"
| "process_all f (file # files) =
     (case f file of
        Inl e \<Rightarrow> Inl e
      | Inr df \<Rightarrow> (case process_all f files of Inl e \<Rightarrow> Inl e | Inr dfs \<Rightarrow> Inr (df # dfs)))"

definition merge_all_data :: "extern \<Rightarrow> string \<Rightarrow> error + frame" where
  \<comment> \<open>the table returned; writing it to the output file is left out\<close>
  "merge_all_data ext data_dir =
     (case find_data_files ext data_dir of (low_cycle_files, two_network_files) \<Rightarrow>
        if low_cycle_files = [] then Inl (NoFilesFound LowCycle)
        else if two_network_files = [] then Inl (NoFilesFound TwoNetwork)
        else (case process_all (process_low_cycle_data ext) low_cycle_files of
               Inl e \<Rightarrow> Inl e
             | Inr low_cycle_dfs \<Rightarrow>
                 (case concat_frames low_cycle_dfs of
                    Inl e \<Rightarrow> Inl e
                  | Inr low_cycle_combined \<Rightarrow>
                      (case process_all (process_two_network_data ext) two_network_files of
                         Inl e \<Rightarrow> Inl e
                       | Inr two_network_dfs \<Rightarrow>
                           (case concat_frames two_network_dfs of
                              Inl e \<Rightarrow> Inl e
                            | Inr two_network_combined \<Rightarrow>
                                concat_frames [low_cycle_combined, two_network_combined])))))"

section \<open>The date pattern, as the specification words it\<close>

text \<open>
  A file name has a date when some part of it reads YYYY-MM-DD: four digits, a hyphen, two
  digits, a hyphen, two digits, and nothing else. This is what the specification asks of
  the file names of the second category; \<open>re_search_date\<close> above is what the code runs.
\<close>

definition is_date_text :: "string \<Rightarrow> bool" where
  \<comment> \<open>the text as a whole is a date\<close>
  "is_date_text d = (match_here date_pattern d = Some [])"

definition has_date_substring :: "string \<Rightarrow> bool" where
  \<comment> \<open>some substring, \<open>n\<close> bytes from offset \<open>i\<close>, is a date\<close>
  "has_date_substring s =
     list_ex (\<lambda>i. list_ex (\<lambda>n. is_date_text (take n (drop i s))) [0 ..< Suc (length s)])
             [0 ..< Suc (length s)]"

section \<open>Sample inputs\<close>

text \<open>
  A stand-in for the outside world and two small sheets, one per source category, each with
  exactly the columns its category requires. The theorems below are run on them.
\<close>

definition demo_extern :: "string list \<Rightarrow> (string \<Rightarrow> frame) \<Rightarrow> extern" where
  "demo_extern listing sheets =
     \<lparr>listdir = (\<lambda>d. listing), read_excel = sheets,
      to_datetime = (\<lambda>col v. case v of Ts t \<Rightarrow> Some t | _ \<Rightarrow> None),
      datetimelike = (\<lambda>col. True),
      to_datetime_str = (\<lambda>s. None),
      strftime_ymd = (\<lambda>t. ''2023-11-20''),
      py_str = (\<lambda>v. case v of Str s \<Rightarrow> s | _ \<Rightarrow> []),
      py_strip = (\<lambda>s. s)\<rparr>"

definition demo_low :: frame where
  "demo_low = \<lparr>nrows = 2, cols = map (\<lambda>c. (c, [Ts 0, Num 21])) required_low\<rparr>"

definition demo_two :: frame where
  "demo_two = \<lparr>nrows = 3, cols = map (\<lambda>c. (c, [Str ''08:00'', Num 5, NA])) required_two\<rparr>"


section \<open>Reading a table by rows\<close>

definition row_tag :: "(string \<times> cell) list \<Rightarrow> cell option" where
  \<comment> \<open>the source-category cell of a row\<close>
  "row_tag r = map_of r col_shuju_leixing"

definition tagged_table :: "string \<Rightarrow> frame \<Rightarrow> bool" where
  \<comment> \<open>a table in the canonical schema, every row of which carries the category tag\<close>
  "tagged_table kw df =
     (colnames df = standard_columns \<and> wf_frame df \<and>
      column df col_shuju_leixing = replicate (nrows df) (Str kw))"

definition stack_frames :: "string list \<Rightarrow> frame list \<Rightarrow> frame" where
  \<comment> \<open>tables that share their columns, put one under the other\<close>
  "stack_frames cs dfs =
     \<lparr>nrows = sum_list (map nrows dfs),
      cols = map (\<lambda>c. (c, concat (map (\<lambda>d. column d c) dfs))) cs\<rparr>"

section \<open>A sample directory\<close>

definition demo_listing :: "string list" where
  \<comment> \<open>one file of each category and one file that is no sheet\<close>
  "demo_listing = [kw_dihuan @ ''.xlsx'', kw_erwang @ ''_2023-11-20.xlsx'', ''notes.txt'']"

definition demo_sheets :: "string \<Rightarrow> frame" where
  "demo_sheets p = (if contains kw_dihuan p then demo_low else demo_two)"

definition demo_low_path :: string where
  "demo_low_path = ''in/'' @ kw_dihuan @ ''.xlsx''"

definition demo_two_path :: string where
  "demo_two_path = ''in/'' @ kw_erwang @ ''_2023-11-20.xlsx''"

definition demo_fullwidth_path :: string where
  \<comment> \<open>a name whose year is written in fullwidth digits (U+FF12 U+FF10 U+FF12 U+FF13)\<close>
  "demo_fullwidth_path =
     ''in/erwang_'' @ [CHR 0xEF, CHR 0xBC, CHR 0x92, CHR 0xEF, CHR 0xBC, CHR 0x90,
                       CHR 0xEF, CHR 0xBC, CHR 0x92, CHR 0xEF, CHR 0xBC, CHR 0x93]
       @ ''-11-20.xlsx''"


section \<open>The grouped resampler (chart_generator.py)\<close>

text \<open>
  \<open>_resample_data\<close> is called by \<open>clean_and_preprocess_data\<close> only, which has by then
  given every column its type: the \<open>datetime\<close> column holds instants or NaT, the location
  and floor cells went through \<open>astype(str)\<close>, and the measurement columns went through
  \<open>pd.to_numeric(errors='coerce')\<close> and hold numbers or NaN. A row is modelled with these
  types; the table keeps its column labels, since the code asks which columns exist.
\<close>

record reading =
  datetime :: "int option"
  weizhi :: string
  louceng :: string
  measure :: "string \<Rightarrow> real option"

record table =
  columns :: "string list"
  rows :: "reading list"

record hourly_row =
  hour :: int
  means :: "(string \<times> real option) list"
  group_key :: "(string \<times> string) option"

datatype resampled = Unchanged table | Hourly "hourly_row list"

definition value_columns :: "string list" where
  "value_columns = [col_shiwen_wendu, col_shunshi_liuliang, col_gongwen, col_huiwen]"

definition hour_ns :: int where
  "hour_ns = 3600000000000"

definition floor_h :: "int \<Rightarrow> int" where
  \<comment> \<open>\<open>Timestamp.floor('h')\<close>\<close>
  "floor_h t = (t div hour_ns) * hour_ns"

definition ceil_h :: "int \<Rightarrow> int" where
  \<comment> \<open>\<open>Timestamp.ceil('h')\<close>\<close>
  "ceil_h t = - ((- t) div hour_ns) * hour_ns"

definition date_range :: "int \<Rightarrow> int \<Rightarrow> int list" where
  \<comment> \<open>\<open>pd.date_range(start, end, freq='h')\<close>: start, start + 1h, ... up to end\<close>
  "date_range start end =
     map (\<lambda>k. start + int k * hour_ns) [0 ..< nat ((end - start) div hour_ns + 1)]"

fun present :: "'a option list \<Rightarrow> 'a list" where
  \<comment> \<open>the values that are not missing\<close>
  "present [] = []"
| "present (None # xs) = present xs"
| "present (Some x # xs) = x # present xs"

definition series_min :: "int option list \<Rightarrow> int option" where
  \<comment> \<open>\<open>Series.min()\<close>, which skips NaT and is NaT when nothing is left\<close>
  "series_min xs = (case present xs of [] \<Rightarrow> None | t # ts \<Rightarrow> Some (fold min ts t))"

definition series_max :: "int option list \<Rightarrow> int option" where
  "series_max xs = (case present xs of [] \<Rightarrow> None | t # ts \<Rightarrow> Some (fold max ts t))"

definition nanmean :: "real option list \<Rightarrow> real option" where
  \<comment> \<open>the mean of a bucket: NaN is skipped, and no value at all gives NaN\<close>
  "nanmean vs = (case present vs of [] \<Rightarrow> None | x # xs \<Rightarrow> Some (sum_list (x # xs) / real (length (x # xs))))"

definition in_bin :: "int \<Rightarrow> reading \<Rightarrow> bool" where
  \<comment> \<open>the bin labelled \<open>t\<close> is closed on the left: \<open>t \<le> ts < t + 1h\<close>; NaT is in no bin\<close>
  "in_bin t r = (case datetime r of None \<Rightarrow> False | Some ts \<Rightarrow> t \<le> ts \<and> ts < t + hour_ns)"

definition resample_mean :: "string list \<Rightarrow> reading list \<Rightarrow> error + (int \<times> (string \<times> real option) list) list" where
  \<comment> \<open>\<open>.resample('1h', on='datetime')[available_columns].mean()\<close>: the bins run from the
      floor of the least instant to the floor of the greatest. Rows with NaT are left out;
      when every instant is NaT the bin edges are computed from NaT, which raises.\<close>
  "resample_mean available_columns rs =
     (if rs = [] then Inr []
      else case (series_min (map datetime rs), series_max (map datetime rs)) of
             (Some lo, Some hi) \<Rightarrow>
               Inr (map (\<lambda>t. (t, map (\<lambda>c. (c, nanmean (map (\<lambda>r. measure r c) (filter (in_bin t) rs))))
                                      available_columns))
                        (date_range (floor_h lo) (floor_h hi)))
           | _ \<Rightarrow> Inl ResampleError)"

definition reindex :: "(int \<times> (string \<times> real option) list) list \<Rightarrow> string list \<Rightarrow> int list
    \<Rightarrow> (int \<times> (string \<times> real option) list) list" where
  \<comment> \<open>\<open>.reindex(full_time_index)\<close>: the row of each label, NaN in every column where there is none\<close>
  "reindex hourly available_columns full_time_index =
     map (\<lambda>t. (t, case map_of hourly t of
                     None \<Rightarrow> map (\<lambda>c. (c, None)) available_columns
                   | Some ms \<Rightarrow> ms))
         full_time_index"

definition key_of :: "reading \<Rightarrow> string \<times> string" where
  "key_of r = (weizhi r, louceng r)"

definition groupby :: "reading list \<Rightarrow> ((string \<times> string) \<times> reading list) list" where
  \<comment> \<open>\<open>df.groupby([location, floor])\<close>: the groups in the order of their sorted keys, the rows
      of a group in the order of the table\<close>
  "groupby rs = map (\<lambda>k. (k, filter (\<lambda>r. key_of r = k) rs)) (sort (remdups (map key_of rs)))"

fun grouped_results :: "string list \<Rightarrow> int list \<Rightarrow> ((string \<times> string) \<times> reading list) list
    \<Rightarrow> error + hourly_row list list" where
  \<comment> \<open>the loop over the groups\<close>
  "grouped_results available_columns full_time_index [] = Inr []"
| "grouped_results available_columns full_time_index ((name, group_rows) # rest) =
     (case resample_mean available_columns group_rows of
        Inl e \<Rightarrow> Inl e
      | Inr group_hourly \<Rightarrow>
          (case grouped_results available_columns full_time_index rest of
             Inl e \<Rightarrow> Inl e
           | Inr others \<Rightarrow>
               Inr (map (\<lambda>p. \<lparr>hour = fst p, means = snd p, group_key = Some name\<rparr>)
                        (reindex group_hourly available_columns full_time_index) # others)))"

definition resample_data :: "table \<Rightarrow> error + resampled" where
  "resample_data df =
     (let available_columns = filter (\<lambda>c. c \<in> set (columns df)) value_columns in
      if available_columns = [] then Inr (Unchanged df)
      else
        (let has_location_floor = (col_weizhi \<in> set (columns df) \<and> col_louceng \<in> set (columns df));
             min_time = series_min (map datetime (rows df));
             max_time = series_max (map datetime (rows df))
         in case (min_time, max_time) of
              (Some lo, Some hi) \<Rightarrow>
                (let full_time_index = date_range (floor_h lo) (ceil_h hi) in
                 if has_location_floor then
                   (case grouped_results available_columns full_time_index (groupby (rows df)) of
                      Inl e \<Rightarrow> Inl e
                    | Inr parts \<Rightarrow> if parts = [] then Inl ValueError else Inr (Hourly (concat parts)))
                 else
                   (case resample_mean available_columns (rows df) of
                      Inl e \<Rightarrow> Inl e
                    | Inr hourly_avg \<Rightarrow>
                        Inr (Hourly (map (\<lambda>p. \<lparr>hour = fst p, means = snd p, group_key = None\<rparr>)
                                         (reindex hourly_avg available_columns full_time_index)))))
            | _ \<Rightarrow> Inl ValueError))"

section \<open>The timeline and the hourly mean, as the specification words them\<close>

definition instants :: "table \<Rightarrow> int list" where
  \<comment> \<open>the instants of the table that are not missing\<close>
  "instants df = present (map datetime (rows df))"

definition timeline :: "table \<Rightarrow> int list" where
  \<comment> \<open>every whole hour from the floor of the least instant of the whole table to the
      ceiling of the greatest\<close>
  "timeline df =
     date_range (floor_h (Min (set (instants df)))) (ceil_h (Max (set (instants df))))"

definition falls_in_hour :: "int \<Rightarrow> reading \<Rightarrow> bool" where
  \<comment> \<open>the reading has an instant, and the hour of that instant is \<open>t\<close>\<close>
  "falls_in_hour t r = (case datetime r of None \<Rightarrow> False | Some ts \<Rightarrow> floor_h ts = t)"

definition hour_values :: "reading list \<Rightarrow> string \<Rightarrow> int \<Rightarrow> real list" where
  \<comment> \<open>the values of a measurement that are not missing, among the readings of an hour\<close>
  "hour_values rs c t = present (map (\<lambda>r. measure r c) (filter (falls_in_hour t) rs))"

definition mean_or_missing :: "real list \<Rightarrow> real option" where
  \<comment> \<open>the arithmetic mean; missing when there is nothing to average\<close>
  "mean_or_missing xs = (if xs = [] then None else Some (sum_list xs / real (length xs)))"

definition bucket_readings :: "table \<Rightarrow> hourly_row \<Rightarrow> reading list" where
  \<comment> \<open>the readings an hourly row draws on: those of its key, or all of them without keys\<close>
  "bucket_readings df h =
     (case group_key h of None \<Rightarrow> rows df | Some k \<Rightarrow> filter (\<lambda>r. key_of r = k) (rows df))"


section \<open>Sample readings\<close>

definition mk_reading :: "int option \<Rightarrow> string \<Rightarrow> string \<Rightarrow> real option \<Rightarrow> reading" where
  \<comment> \<open>a reading with a room temperature and no other measurement\<close>
  "mk_reading t loc fl temp =
     \<lparr>datetime = t, weizhi = loc, louceng = fl,
      measure = (\<lambda>c. if c = col_shiwen_wendu then temp else None)\<rparr>"

definition demo_columns :: "string list" where
  "demo_columns = [''datetime'', col_weizhi, col_louceng, col_shiwen_wendu]"

definition demo_one_hour :: table where
  \<comment> \<open>one key, three readings within one hour\<close>
  "demo_one_hour = \<lparr>columns = demo_columns,
     rows = [mk_reading (Some 0) ''L1'' ''1'' (Some 10),
             mk_reading (Some 600000000000) ''L1'' ''1'' (Some 20),
             mk_reading (Some 1200000000000) ''L1'' ''1'' (Some 30)]\<rparr>"

definition demo_two_keys :: table where
  \<comment> \<open>a timeline of five hours; the first key has readings in the hours 0, 1 and 2 only\<close>
  "demo_two_keys = \<lparr>columns = demo_columns,
     rows = [mk_reading (Some 0) ''L2'' ''1'' (Some 1),
             mk_reading (Some 0) ''L1'' ''1'' (Some 10),
             mk_reading (Some hour_ns) ''L1'' ''1'' (Some 11),
             mk_reading (Some (2 * hour_ns)) ''L1'' ''1'' None,
             mk_reading (Some (4 * hour_ns)) ''L2'' ''1'' (Some 5)]\<rparr>"

definition demo_no_instant :: table where
  \<comment> \<open>a table whose only time cell could not be parsed\<close>
  "demo_no_instant = \<lparr>columns = demo_columns, rows = [mk_reading None ''L1'' ''1'' (Some 20)]\<rparr>"

definition demo_key_without_instant :: table where
  \<comment> \<open>two keys, the second with no instant at all\<close>
  "demo_key_without_instant = \<lparr>columns = demo_columns,
     rows = [mk_reading (Some 0) ''L1'' ''1'' (Some 1), mk_reading None ''L2'' ''1'' (Some 2)]\<rparr>"

definition demo_no_measurement :: table where
  \<comment> \<open>a table with none of the four measurement columns\<close>
  "demo_no_measurement = \<lparr>columns = [''datetime'', col_weizhi, col_louceng],
     rows = [mk_reading (Some 0) ''L1'' ''1'' None]\<rparr>"

section \<open>Smoothing with a confidence band (chart_generator.py)\<close>

text \<open>
  A series is a list of numbers or NaN. \<open>Series.rolling(window, center=True, min_periods)\<close>
  is modelled after pandas' fixed window indexer: with \<open>offset = (window - 1) // 2\<close> the
  window of position \<open>i\<close> is the slice from \<open>i + 1 + offset - window\<close> to \<open>i + 1 + offset\<close>,
  both ends clipped to the series. The standard deviation is the sample one (\<open>ddof = 1\<close>).
  The normal quantile \<open>scipy.stats.norm.ppf\<close> is a parameter.
\<close>

definition rolling_window :: "real option list \<Rightarrow> int \<Rightarrow> nat \<Rightarrow> real option list" where
  "rolling_window data window i =
     (let num_values = int (length data);
          offset = (window - 1) div 2;
          end = int i + 1 + offset;
          start = end - window;
          end_clipped = min (max end 0) num_values;
          start_clipped = min (max start 0) num_values
      in take (nat end_clipped - nat start_clipped) (drop (nat start_clipped) data))"

definition sample_std :: "real list \<Rightarrow> real" where
  \<comment> \<open>the standard deviation with \<open>ddof = 1\<close>, of at least two values\<close>
  "sample_std xs =
     (let mean = sum_list xs / real (length xs)
      in sqrt (sum_list (map (\<lambda>x. (x - mean)\<^sup>2) xs) / real (length xs - 1)))"

definition rolling_mean :: "real option list \<Rightarrow> int \<Rightarrow> int \<Rightarrow> nat \<Rightarrow> real option" where
  "rolling_mean data window min_periods i =
     (let xs = present (rolling_window data window i); nobs = length xs
      in if min_periods \<le> int nobs \<and> 0 < nobs then Some (sum_list xs / real nobs) else None)"

definition rolling_std :: "real option list \<Rightarrow> int \<Rightarrow> int \<Rightarrow> nat \<Rightarrow> real option" where
  "rolling_std data window min_periods i =
     (let xs = present (rolling_window data window i); nobs = length xs
      in if min_periods \<le> int nobs \<and> 1 < nobs then Some (sample_std xs) else None)"

definition nan_minus :: "real option \<Rightarrow> real option \<Rightarrow> real option" where
  "nan_minus a b = (case (a, b) of (Some x, Some y) \<Rightarrow> Some (x - y) | _ \<Rightarrow> None)"

definition nan_plus :: "real option \<Rightarrow> real option \<Rightarrow> real option" where
  "nan_plus a b = (case (a, b) of (Some x, Some y) \<Rightarrow> Some (x + y) | _ \<Rightarrow> None)"

definition smooth_data_with_confidence ::
    "(real \<Rightarrow> real) \<Rightarrow> real option list \<Rightarrow> int \<Rightarrow> real
      \<Rightarrow> error + (real option list \<times> real option list \<times> real option list)" where
  \<comment> \<open>\<open>rolling\<close> refuses a negative window and a \<open>min_periods\<close> above the window\<close>
  "smooth_data_with_confidence norm_ppf data_series window_size confidence =
     (let min_periods = max 1 (window_size div 2) in
      if window_size < 0 \<or> window_size < min_periods then Inl ValueError
      else
        (let positions = [0 ..< length data_series];
             smoothed = map (rolling_mean data_series window_size min_periods) positions;
             std = map (rolling_std data_series window_size min_periods) positions;
             n = window_size;
             standard_error = map (map_option (\<lambda>s. s / sqrt (real_of_int n))) std;
             z_score = norm_ppf (1 - (1 - confidence) / 2);
             margin_error = map (map_option (\<lambda>e. z_score * e)) standard_error;
             confidence_lower = map (\<lambda>p. nan_minus (fst p) (snd p)) (zip smoothed margin_error);
             confidence_upper = map (\<lambda>p. nan_plus (fst p) (snd p)) (zip smoothed margin_error)
         in Inr (smoothed, confidence_lower, confidence_upper)))"

section \<open>Sample values of the normal quantile\<close>

definition norm_ppf_sample :: "real \<Rightarrow> real" where
  \<comment> \<open>\<open>scipy.stats.norm.ppf\<close> at the arguments the samples use, to four decimal places:
      \<open>norm.ppf(0.975) = 1.9600\<close> for the confidence level 0.95, \<open>norm.ppf(0.25) = -0.6745\<close>
      for the confidence level -0.5, and \<open>norm.ppf(0.5) = 0\<close>\<close>
  "norm_ppf_sample p =
     (if p = 975 / 1000 then 196 / 100 else if p = 1 / 4 then - (6745 / 10000) else 0)"

section \<open>The smoothed band, as the specification words it\<close>

definition centred_window :: "real option list \<Rightarrow> int \<Rightarrow> int \<Rightarrow> nat \<Rightarrow> real option list" where
  \<comment> \<open>the cells at the positions from \<open>i - left\<close> to \<open>i + right\<close> that exist\<close>
  "centred_window data left right i =
     map (\<lambda>j. data ! j)
         (filter (\<lambda>j. int i - left \<le> int j \<and> int j \<le> int i + right) [0 ..< length data])"

definition band_at :: "real \<Rightarrow> real option list \<Rightarrow> int \<Rightarrow> int \<Rightarrow> int \<Rightarrow> nat
    \<Rightarrow> real option \<times> real option \<times> real option" where
  \<comment> \<open>smoothed value, lower and upper bound at one position, for a window that reaches
      \<open>left\<close> positions back and \<open>right\<close> positions forward: the mean once
      \<open>max(1, w // 2)\<close> values are there, the margin \<open>z\<close> times the standard deviation of the
      window over the root of \<open>w\<close>, the bounds the mean less and plus the margin\<close>
  "band_at z data w left right i =
     (let xs = present (centred_window data left right i);
          smoothed = (if max 1 (w div 2) \<le> int (length xs) then Some (sum_list xs / real (length xs))
                      else None);
          margin = (if max 1 (w div 2) \<le> int (length xs) \<and> 2 \<le> length xs
                    then Some (z * (sample_std xs / sqrt (real_of_int w))) else None)
      in (smoothed, nan_minus smoothed margin, nan_plus smoothed margin))"

definition band :: "real \<Rightarrow> real option list \<Rightarrow> int \<Rightarrow> int \<Rightarrow> int
    \<Rightarrow> real option list \<times> real option list \<times> real option list" where
  "band z data w left right =
     (map (\<lambda>i. fst (band_at z data w left right i)) [0 ..< length data],
      map (\<lambda>i. fst (snd (band_at z data w left right i))) [0 ..< length data],
      map (\<lambda>i. snd (snd (band_at z data w left right i))) [0 ..< length data])"

definition claimed_band :: "real \<Rightarrow> real option list \<Rightarrow> int
    \<Rightarrow> real option list \<times> real option list \<times> real option list" where
  \<comment> \<open>the window of the claim: \<open>w // 2\<close> positions to each side\<close>
  "claimed_band z data w = band z data w (w div 2) (w div 2)"

section \<open>Sorting by the instant (chart_generator.py)\<close>

text \<open>
  \<open>clean_and_preprocess_data\<close> ends its temporal normalization with
  \<open>df_copy.sort_values('datetime', inplace=True)\<close>, that is with the default
  \<open>kind='quicksort'\<close> and \<open>na_position='last'\<close>. pandas sorts the positions of the rows that
  have an instant with numpy's \<open>argsort\<close> and puts the positions of the NaT rows behind
  them. numpy's \<open>argsort\<close> is a parameter: it maps the keys to a list of positions.
  The sort that numpy runs for \<open>kind='quicksort'\<close> is written out further below.
\<close>

definition nargsort :: "(int list \<Rightarrow> nat list) \<Rightarrow> int option list \<Rightarrow> nat list" where
  "nargsort argsort items =
     (let idx = [0 ..< length items];
          non_nan_idx = filter (\<lambda>i. items ! i \<noteq> None) idx;
          nan_idx = filter (\<lambda>i. items ! i = None) idx;
          non_nans = map (\<lambda>i. the (items ! i)) non_nan_idx
      in map (\<lambda>j. non_nan_idx ! j) (argsort non_nans) @ nan_idx)"

definition sort_values_datetime :: "(int list \<Rightarrow> nat list) \<Rightarrow> reading list \<Rightarrow> reading list" where
  "sort_values_datetime argsort rs = map (\<lambda>i. rs ! i) (nargsort argsort (map datetime rs))"

section \<open>What a sort is asked to do\<close>

definition is_argsort_of :: "int list \<Rightarrow> nat list \<Rightarrow> bool" where
  \<comment> \<open>what numpy promises of \<open>argsort\<close> for every kind: the positions of the keys, each
      once, in an order that puts the keys in ascending order\<close>
  "is_argsort_of xs p = (mset p = mset [0 ..< length xs] \<and> sorted (map (\<lambda>j. xs ! j) p))"

definition keeps_tie_order :: "reading list \<Rightarrow> reading list \<Rightarrow> bool" where
  \<comment> \<open>stability: the rows of every instant are in the order they had before\<close>
  "keeps_tie_order rs out =
     list_all (\<lambda>t. filter (\<lambda>r. datetime r = t) out = filter (\<lambda>r. datetime r = t) rs)
              (map datetime rs)"

section \<open>numpy's quicksort\<close>

text \<open>
  For \<open>kind='quicksort'\<close> numpy sorts the positions of datetime keys with the introsort
  \<open>aquicksort_\<close> of \<open>npysort/quicksort.cpp\<close>: while a range has more than
  \<open>SMALL_QUICKSORT + 1 = 16\<close> positions it is partitioned around the median of its first,
  middle and last key, the larger part is pushed on a stack and the smaller part is gone
  on with; a range of at most 16 positions is sorted by insertion; a range that comes off
  the stack after the depth limit is used up is sorted by \<open>aheapsort_\<close> of
  \<open>npysort/heapsort.cpp\<close>. numpy is not part of the repository; the functions below follow
  its source. The array \<open>tosort\<close> of positions is a list, the pointers \<open>pl\<close>, \<open>pr\<close>, \<open>pm\<close>,
  \<open>pi\<close>, \<open>pj\<close>, \<open>pk\<close> are indices into it (\<open>pi\<close>, \<open>pj\<close>, \<open>pk\<close> are written \<open>p_i\<close>, \<open>p_j\<close>,
  \<open>p_k\<close>), and \<open>v\<close> is the list of keys. The parts of a range are disjoint, so the order in
  which the stack hands them out does not matter, and the stack is the recursion.
\<close>

definition small_quicksort :: nat where
  \<comment> \<open>\<open>#define SMALL_QUICKSORT 15\<close>\<close>
  "small_quicksort = 15"

fun npy_get_msb :: "nat \<Rightarrow> nat" where
  \<comment> \<open>\<open>while (unum >>= 1) depth_limit++\<close>\<close>
  "npy_get_msb unum = (if unum div 2 = 0 then 0 else Suc (npy_get_msb (unum div 2)))"

declare npy_get_msb.simps [simp del]

definition intp_swap :: "nat list \<Rightarrow> nat \<Rightarrow> nat \<Rightarrow> nat list" where
  \<comment> \<open>\<open>INTP_SWAP(a[i], a[j])\<close>\<close>
  "intp_swap a i j = a[i := a ! j, j := a ! i]"

function scan_up :: "int list \<Rightarrow> nat list \<Rightarrow> int \<Rightarrow> nat \<Rightarrow> nat \<Rightarrow> nat" where
  \<comment> \<open>\<open>do { ++pi; } while (v[*pi] < vp)\<close>; the pivot at \<open>pr - 1\<close> ends the scan inside the
      range, which the bound \<open>pr\<close> makes explicit\<close>
  "scan_up v a vp pr p_i =
     (if Suc p_i < pr \<and> v ! (a ! Suc p_i) < vp then scan_up v a vp pr (Suc p_i) else Suc p_i)"
  by pat_completeness auto
termination
  by (relation "Wellfounded.measure (\<lambda>(v, a, vp, pr, p_i). pr - p_i)") auto

declare scan_up.simps [simp del]

fun scan_down :: "int list \<Rightarrow> nat list \<Rightarrow> int \<Rightarrow> nat \<Rightarrow> nat" where
  \<comment> \<open>\<open>do { --pj; } while (vp < v[*pj])\<close>; the key at \<open>pl\<close>, which is not above the pivot,
      ends the scan inside the range\<close>
  "scan_down v a vp 0 = 0"
| "scan_down v a vp (Suc p_j) = (if vp < v ! (a ! p_j) then scan_down v a vp p_j else p_j)"

function partition_loop ::
    "int list \<Rightarrow> int \<Rightarrow> nat \<Rightarrow> nat list \<Rightarrow> nat \<Rightarrow> nat \<Rightarrow> nat list \<times> nat" where
  \<comment> \<open>the loop \<open>for (;;)\<close> of the partition: the positions as it leaves them, and \<open>pi\<close>\<close>
  "partition_loop v vp pr a p_i p_j =
     (let p_i' = scan_up v a vp pr p_i; p_j' = scan_down v a vp p_j
      in if p_i' \<ge> p_j' then (a, p_i')
         else partition_loop v vp pr (intp_swap a p_i' p_j') p_i' p_j')"
  by pat_completeness auto
termination
proof (relation "Wellfounded.measure (\<lambda>(v, vp, pr, a, p_i, p_j). p_j)")
  show "wf (Wellfounded.measure (\<lambda>(v, vp, pr, a, p_i, p_j). p_j))" by simp
next
  fix v :: "int list" and vp :: int and pr :: nat and a :: "nat list" and p_i p_j x xa :: nat
  assume xa: "xa = scan_down v a vp p_j" and more: "\<not> xa \<le> x"
  have down: "scan_down v a vp k \<le> k" for k
    by (induction k) auto
  have "xa < p_j"
  proof (cases p_j)
    case 0
    with xa more show ?thesis by simp
  next
    case (Suc k)
    then show ?thesis using xa down [of k] by simp
  qed
  then show "((v, vp, pr, intp_swap a x xa, x, xa), (v, vp, pr, a, p_i, p_j))
      \<in> Wellfounded.measure (\<lambda>(v, vp, pr, a, p_i, p_j). p_j)"
    by simp
qed

declare partition_loop.simps [simp del]

definition quicksort_partition :: "int list \<Rightarrow> nat list \<Rightarrow> nat \<Rightarrow> nat \<Rightarrow> nat list \<times> nat" where
  \<comment> \<open>one partition of the range from \<open>pl\<close> to \<open>pr\<close>: the median of three goes to \<open>pm\<close>,
      the pivot is parked at \<open>pr - 1\<close> and put at \<open>pi\<close> in the end\<close>
  "quicksort_partition v a pl pr =
     (let pm = pl + (pr - pl) div 2;
          a1 = (if v ! (a ! pm) < v ! (a ! pl) then intp_swap a pm pl else a);
          a2 = (if v ! (a1 ! pr) < v ! (a1 ! pm) then intp_swap a1 pr pm else a1);
          a3 = (if v ! (a2 ! pm) < v ! (a2 ! pl) then intp_swap a2 pm pl else a2);
          vp = v ! (a3 ! pm);
          a4 = intp_swap a3 pm (pr - 1)
      in case partition_loop v vp pr a4 pl (pr - 1) of
           (a5, p_i) \<Rightarrow> (intp_swap a5 p_i (pr - 1), p_i))"

fun insert_back :: "int list \<Rightarrow> int \<Rightarrow> nat \<Rightarrow> nat \<Rightarrow> nat list \<Rightarrow> nat \<Rightarrow> nat list" where
  \<comment> \<open>\<open>while (pj > pl && vp < v[*pk]) { *pj-- = *pk--; } *pj = vi\<close>, with \<open>pj = pk + 1\<close>\<close>
  "insert_back v vp vi pl a 0 = a[0 := vi]"
| "insert_back v vp vi pl a (Suc p_k) =
     (if pl < Suc p_k \<and> vp < v ! (a ! p_k)
      then insert_back v vp vi pl (a[Suc p_k := a ! p_k]) p_k
      else a[Suc p_k := vi])"

definition insertion_sort :: "int list \<Rightarrow> nat list \<Rightarrow> nat \<Rightarrow> nat \<Rightarrow> nat list" where
  \<comment> \<open>\<open>for (pi = pl + 1; pi <= pr; ++pi)\<close>\<close>
  "insertion_sort v a pl pr =
     fold (\<lambda>p_i a. insert_back v (v ! (a ! p_i)) (a ! p_i) pl a p_i) [Suc pl ..< Suc pr] a"

function sift_down :: "int list \<Rightarrow> nat \<Rightarrow> nat \<Rightarrow> nat list \<Rightarrow> nat \<Rightarrow> nat \<Rightarrow> nat list" where
  \<comment> \<open>the inner loop of the heapsort, on the range as a list \<open>h\<close> that is indexed from 1:
      \<open>for (...; j <= n;) { if (j < n && v[a[j]] < v[a[j + 1]]) j += 1;
      if (v[tmp] < v[a[j]]) { a[i] = a[j]; i = j; j += j; } else break; } a[i] = tmp\<close>\<close>
  "sift_down v tmp n h i j =
     (if 0 < j \<and> j \<le> n then
        (let j1 = (if j < n \<and> v ! (h ! (j - 1)) < v ! (h ! j) then j + 1 else j)
         in if v ! tmp < v ! (h ! (j1 - 1))
            then sift_down v tmp n (h[i - 1 := h ! (j1 - 1)]) j1 (j1 + j1)
            else h[i - 1 := tmp])
      else h[i - 1 := tmp])"
  by pat_completeness auto
termination
  by (relation "Wellfounded.measure (\<lambda>(v, tmp, n, h, i, j). Suc n - j)") auto

declare sift_down.simps [simp del]

definition aheapsort :: "int list \<Rightarrow> nat list \<Rightarrow> nat \<Rightarrow> nat \<Rightarrow> nat list" where
  \<comment> \<open>\<open>aheapsort_(vv, pl, n)\<close>: the \<open>n\<close> positions from \<open>pl\<close> on are made a heap and taken
      off it one by one\<close>
  "aheapsort v a pl n =
     (let h0 = take n (drop pl a);
          h1 = fold (\<lambda>l h. sift_down v (h ! (l - 1)) n h l (2 * l)) (rev [1 ..< Suc (n div 2)]) h0;
          h2 = fold (\<lambda>m h. sift_down v (h ! (m - 1)) (m - 1) (h[m - 1 := h ! 0]) 1 2)
                    (rev [2 ..< Suc n]) h1
      in take pl a @ h2 @ drop (pl + n) a)"

function aquicksort_range :: "int list \<Rightarrow> nat list \<Rightarrow> nat \<Rightarrow> nat \<Rightarrow> int \<Rightarrow> nat list"
  and aquicksort_popped :: "int list \<Rightarrow> nat list \<Rightarrow> nat \<Rightarrow> nat \<Rightarrow> int \<Rightarrow> nat list" where
  \<comment> \<open>\<open>aquicksort_range\<close> is the loop \<open>while ((pr - pl) > SMALL_QUICKSORT)\<close> with the
      insertion sort behind it; \<open>aquicksort_popped\<close> is the head of the outer loop, which a
      range reaches when it comes off the stack, with the depth that was pushed with it\<close>
  "aquicksort_range v a pl pr cdepth =
     (if small_quicksort < pr - pl then
        (case quicksort_partition v a pl pr of
           (a1, p_i) \<Rightarrow>
             if p_i - pl < pr - p_i
             then aquicksort_popped v (aquicksort_range v a1 pl (p_i - 1) (cdepth - 1))
                    (p_i + 1) pr (cdepth - 1)
             else aquicksort_popped v (aquicksort_range v a1 (p_i + 1) pr (cdepth - 1))
                    pl (p_i - 1) (cdepth - 1))
      else insertion_sort v a pl pr)"
| "aquicksort_popped v a pl pr cdepth =
     (if cdepth < 0 then aheapsort v a pl (pr - pl + 1) else aquicksort_range v a pl pr cdepth)"
  by pat_completeness auto
termination
proof (relation "Wellfounded.measure (\<lambda>x. case x of Inl (v, a, pl, pr, cdepth) \<Rightarrow> 2 * (pr - pl)
                                | Inr (v, a, pl, pr, cdepth) \<Rightarrow> 2 * (pr - pl) + 1)", goal_cases)
  have up: "p_i < scan_up v a vp pr p_i \<and> scan_up v a vp pr p_i \<le> pr" if "p_i < pr"
    for v a vp pr p_i
    using that
  proof (induction v a vp pr p_i rule: scan_up.induct)
    case (1 v a vp pr p_i)
    show ?case
    proof (cases "Suc p_i < pr \<and> v ! (a ! Suc p_i) < vp")
      case True
      then have "Suc p_i < scan_up v a vp pr (Suc p_i) \<and> scan_up v a vp pr (Suc p_i) \<le> pr"
        using "1.IH" by simp
      then show ?thesis using True by (subst (1 2) scan_up.simps) simp
    next
      case False
      then show ?thesis using "1.prems" by (subst (1 2) scan_up.simps) auto
    qed
  qed
  have down: "scan_down v a vp p_j \<le> p_j" for v a vp p_j
    by (induction p_j) auto
  have loop: "p_i < k \<and> k \<le> pr"
    if "p_i < pr" "p_j \<le> pr" "partition_loop v vp pr a p_i p_j = (a', k)"
    for v vp pr a p_i p_j a' k
    using that
  proof (induction v vp pr a p_i p_j arbitrary: a' k rule: partition_loop.induct)
    case (1 v vp pr a p_i p_j)
    define x where "x = scan_up v a vp pr p_i"
    define y where "y = scan_down v a vp p_j"
    have xb: "p_i < x \<and> x \<le> pr" unfolding x_def using "1.prems"(1) by (rule up)
    have yb: "y \<le> p_j" unfolding y_def by (rule down)
    show ?case
    proof (cases "y \<le> x")
      case True
      then have "partition_loop v vp pr a p_i p_j = (a, x)"
        by (subst partition_loop.simps) (simp add: x_def y_def Let_def)
      with "1.prems"(3) xb show ?thesis by simp
    next
      case False
      then have e: "partition_loop v vp pr a p_i p_j = partition_loop v vp pr (intp_swap a x y) x y"
        by (subst partition_loop.simps) (simp add: x_def y_def Let_def)
      have "x < k \<and> k \<le> pr"
      proof (rule "1.IH" [OF x_def y_def])
        show "\<not> y \<le> x" by (rule False)
        show "x < pr" using False yb "1.prems"(2) by simp
        show "y \<le> pr" using yb "1.prems"(2) by simp
        show "partition_loop v vp pr (intp_swap a x y) x y = (a', k)" using e "1.prems"(3) by simp
      qed
      with xb show ?thesis by simp
    qed
  qed
  have bounds: "pl < k \<and> k \<le> pr"
    if "small_quicksort < pr - pl" "(a', k) = quicksort_partition v a pl pr" for v a pl pr a' k
  proof -
    from that(2) obtain a4 vp a5 where "partition_loop v vp pr a4 pl (pr - 1) = (a5, k)"
      unfolding quicksort_partition_def Let_def by (auto split: prod.splits)
    moreover have "pl < pr" using that(1) by simp
    ultimately show ?thesis
      using loop [of pl pr "pr - 1" v vp a4 a5 k] by simp
  qed
  {
    case 1
    show ?case by simp
  next
    case (2 v a pl pr cdepth x y)
    from bounds [OF this(1, 2)] show ?case by auto
  next
    case (3 v a pl pr cdepth x y)
    from bounds [OF this(1, 2)] show ?case by auto
  next
    case (4 v a pl pr cdepth x y)
    from bounds [OF this(1, 2)] show ?case by auto
  next
    case (5 v a pl pr cdepth x y)
    from bounds [OF this(1, 2)] show ?case by auto
  next
    case (6 v a pl pr cdepth)
    then show ?case by simp
  }
qed

declare aquicksort_range.simps [simp del] aquicksort_popped.simps [simp del]

definition npy_aquicksort :: "int list \<Rightarrow> nat list" where
  \<comment> \<open>\<open>np.argsort(v, kind='quicksort')\<close>: the positions start as \<open>0, 1, ..., num - 1\<close>, the
      first range is all of them, the depth limit is twice the position of the top bit\<close>
  "npy_aquicksort v =
     (let num = length v
      in if num = 0 then []
         else aquicksort_popped v [0 ..< num] 0 (num - 1) (2 * int (npy_get_msb num)))"

section \<open>Sample rows for the sort\<close>

definition demo_unsorted :: "reading list" where
  "demo_unsorted = [mk_reading (Some 5) ''L1'' ''1'' (Some 1),
                    mk_reading None ''L1'' ''1'' (Some 2),
                    mk_reading (Some 0) ''L2'' ''1'' (Some 3)]"

definition demo_rooms :: "string list" where
  "demo_rooms = [''R00'', ''R01'', ''R02'', ''R03'', ''R04'', ''R05'', ''R06'', ''R07'', ''R08'',
                 ''R09'', ''R10'', ''R11'', ''R12'', ''R13'', ''R14'', ''R15'', ''R16'']"

definition demo_equal :: "reading list" where
  \<comment> \<open>seventeen readings of one instant, one per room\<close>
  "demo_equal = map (\<lambda>room. mk_reading (Some 0) room ''1'' (Some 20)) demo_rooms"

section \<open>Facts about the schema and the table operations\<close>

lemmas col_defs = col_xuhao_def col_guanli_danwei_def col_guanlisuo_def col_huanrezhan_def col_cedian_mingcheng_def col_weizhi_def col_louceng_def col_shebei_biaoshi_def col_shuju_shijian_def col_shiwen_wendu_def col_baojing_zhuangtai_def col_yuanwenjian_def col_shuju_leixing_def col_huanlu_def col_jihua_reliang_def col_shunshi_reliang_def col_reliang_def col_shunshi_liuliang_def col_danwei_liuliang_def col_famen_kaidu_def col_sheding_def col_fankui_def col_gongwen_def col_huiwen_def col_gongya_def col_huiya_def col_riqi_def

lemma distinct_standard_columns: "distinct standard_columns"
  by (simp add: standard_columns_def col_defs)

lemma length_standard_columns: "length standard_columns = 27"
  by (simp add: standard_columns_def)

lemma required_low_standard: "set required_low \<subseteq> set standard_columns"
  by (simp add: required_low_def standard_columns_def)

lemma required_two_standard: "set required_two \<subseteq> set standard_columns"
  by (simp add: required_two_def standard_columns_def)


subsection \<open>Frame operations\<close>

lemma nrows_set_col: "nrows (set_col df c vs) = nrows df"
  by (simp add: set_col_def)

lemma nrows_set_scalar: "nrows (set_scalar df c v) = nrows df"
  by (simp add: set_scalar_def nrows_set_col)

lemma map_of_set_col: "map_of (cols (set_col df c vs)) = (map_of (cols df))(c \<mapsto> vs)"
  by (simp add: set_col_def update_conv')

lemma map_of_set_scalar:
  "map_of (cols (set_scalar df c v)) = (map_of (cols df))(c \<mapsto> replicate (nrows df) v)"
  by (simp add: set_scalar_def map_of_set_col)

lemma set_colnames_set_col: "set (colnames (set_col df c vs)) = insert c (set (colnames df))"
  by (simp add: set_col_def colnames_def dom_update)

lemma set_colnames_set_scalar: "set (colnames (set_scalar df c v)) = insert c (set (colnames df))"
  by (simp add: set_scalar_def set_colnames_set_col)

lemma in_colnames_iff: "c \<in> set (colnames df) \<longleftrightarrow> map_of (cols df) c \<noteq> None"
  by (simp add: colnames_def map_of_eq_None_iff)

lemma get_col_ok: "c \<in> set (colnames df) \<Longrightarrow> get_col df c = Inr (the (map_of (cols df) c))"
  by (auto simp: get_col_def in_colnames_iff split: option.splits)

lemma select_cols_ok:
  "set cs \<subseteq> set (colnames df) \<Longrightarrow>
   select_cols df cs = Inr (map (\<lambda>c. (c, the (map_of (cols df) c))) cs)"
  by (induction cs) (simp_all add: get_col_ok)

lemma select_ok:
  "set cs \<subseteq> set (colnames df) \<Longrightarrow>
   select df cs = Inr (df\<lparr>cols := map (\<lambda>c. (c, the (map_of (cols df) c))) cs\<rparr>)"
  by (simp add: select_def select_cols_ok)

lemma map_of_tabulate: "map_of (map (\<lambda>c. (c, f c)) cs) c = (if c \<in> set cs then Some (f c) else None)"
  by (induction cs) auto

lemma fold_set_scalar_nrows: "nrows (fold (\<lambda>c d. set_scalar d c v) ms df) = nrows df"
  by (induction ms arbitrary: df) (simp_all add: nrows_set_scalar)

lemma fold_set_scalar_map_of:
  "map_of (cols (fold (\<lambda>c d. set_scalar d c v) ms df)) c =
     (if c \<in> set ms then Some (replicate (nrows df) v) else map_of (cols df) c)"
  by (induction ms arbitrary: df) (auto simp: map_of_set_scalar nrows_set_scalar)

lemma nrows_add_missing: "nrows (add_missing_columns df) = nrows df"
  by (simp add: add_missing_columns_def fold_set_scalar_nrows)

lemma map_of_add_missing:
  "map_of (cols (add_missing_columns df)) c =
     (if c \<in> set (colnames df) then map_of (cols df) c
      else if c \<in> set standard_columns then Some (replicate (nrows df) NA) else None)"
  by (auto simp: add_missing_columns_def fold_set_scalar_map_of in_colnames_iff)

lemma colnames_add_missing:
  "set (colnames (add_missing_columns df)) = set (colnames df) \<union> set standard_columns"
  by (auto simp: in_colnames_iff map_of_add_missing split: if_splits)

lemma first_missing_None: "first_missing req df = None \<longleftrightarrow> set req \<subseteq> set (colnames df)"
  by (auto simp: first_missing_def find_None_iff)

lemma first_missing_Some:
  "first_missing req df = Some c \<Longrightarrow> c \<in> set req \<and> c \<notin> set (colnames df)"
  by (auto simp: first_missing_def find_Some_iff)

lemma wf_frame_length: "wf_frame df \<Longrightarrow> map_of (cols df) c = Some vs \<Longrightarrow> length vs = nrows df"
  using map_of_SomeD [of "cols df" c vs] by (auto simp: wf_frame_def list_all_iff)

lemma wf_frame_tabulate:
  "distinct cs \<Longrightarrow> (\<And>c. c \<in> set cs \<Longrightarrow> length (f c) = n) \<Longrightarrow>
   wf_frame (df\<lparr>nrows := n, cols := map (\<lambda>c. (c, f c)) cs\<rparr>)"
  by (auto simp: wf_frame_def colnames_def list_all_iff comp_def)

lemma stamp_cols_distinct:
  "col_yuanwenjian \<noteq> col_shuju_leixing" "col_yuanwenjian \<noteq> col_shuju_shijian"
  "col_yuanwenjian \<noteq> col_riqi" "col_shuju_leixing \<noteq> col_shuju_shijian"
  "col_shuju_leixing \<noteq> col_riqi" "col_shuju_shijian \<noteq> col_riqi"
  by (simp_all add: col_defs)

lemma stamp_cols_standard:
  "col_yuanwenjian \<in> set standard_columns" "col_shuju_leixing \<in> set standard_columns"
  "col_shuju_shijian \<in> set standard_columns" "col_riqi \<in> set standard_columns"
  by (simp_all add: standard_columns_def)

lemma shijian_required: "col_shuju_shijian \<in> set required_low" "col_shuju_shijian \<in> set required_two"
  by (simp_all add: required_low_def required_two_def)

lemma low_time_column:
  assumes req: "col_shuju_shijian \<in> set (colnames raw)"
  shows "get_col (set_scalar (set_scalar (add_missing_columns raw) col_yuanwenjian a) col_shuju_leixing b)
           col_shuju_shijian = Inr (column raw col_shuju_shijian)"
proof -
  obtain raw_time where rt: "map_of (cols raw) col_shuju_shijian = Some raw_time"
    using req by (auto simp: in_colnames_iff)
  show ?thesis
    using rt req stamp_cols_distinct
    by (simp add: get_col_def column_def map_of_set_scalar map_of_add_missing)
qed

lemma process_low_cycle_data_objects:
  assumes req: "set required_low \<subseteq> set (colnames (read_excel ext p))"
    and ob: "\<not> datetimelike ext (column (read_excel ext p) col_shuju_shijian)"
  shows "process_low_cycle_data ext p = Inl AttributeError"
proof -
  have fm: "first_missing required_low (read_excel ext p) = None"
    using req by (simp add: first_missing_None)
  have sj: "col_shuju_shijian \<in> set (colnames (read_excel ext p))"
    using req shijian_required by auto
  show ?thesis
    unfolding process_low_cycle_data_def Let_def fm low_time_column [OF sj]
    using ob by simp
qed

lemma process_low_cycle_data_run:
  assumes req: "set required_low \<subseteq> set (colnames (read_excel ext p))"
    and dl: "datetimelike ext (column (read_excel ext p) col_shuju_shijian)"
  shows "\<exists>out f. process_low_cycle_data ext p = Inr out \<and>
     nrows out = nrows (read_excel ext p) \<and> cols out = map (\<lambda>c. (c, f c)) standard_columns \<and>
     f col_yuanwenjian = replicate (nrows (read_excel ext p)) (Str (basename p)) \<and>
     f col_shuju_leixing = replicate (nrows (read_excel ext p)) (Str kw_dihuan) \<and>
     (wf_frame (read_excel ext p) \<longrightarrow> (\<forall>c \<in> set standard_columns. length (f c) = nrows (read_excel ext p))) \<and>
     (\<forall>c \<in> set standard_columns. c \<notin> {col_yuanwenjian, col_shuju_leixing, col_shuju_shijian, col_riqi} \<longrightarrow>
        f c = (if c \<in> set (colnames (read_excel ext p)) then the (map_of (cols (read_excel ext p)) c)
               else replicate (nrows (read_excel ext p)) NA))"
proof -
  define raw where "raw = read_excel ext p"
  define df3 where "df3 = set_scalar (set_scalar (add_missing_columns raw) col_yuanwenjian (Str (basename p)))
                             col_shuju_leixing (Str kw_dihuan)"
  have fm: "first_missing required_low raw = None"
    using req by (simp add: first_missing_None raw_def)
  have sj_in: "col_shuju_shijian \<in> set (colnames raw)"
    using req shijian_required by (auto simp: raw_def)
  then obtain raw_time where rt: "map_of (cols raw) col_shuju_shijian = Some raw_time"
    by (auto simp: in_colnames_iff)
  have m3: "map_of (cols df3) col_shuju_shijian = Some raw_time"
    using rt sj_in stamp_cols_distinct
    by (simp add: df3_def map_of_set_scalar map_of_add_missing)
  have g3: "get_col df3 col_shuju_shijian = Inr raw_time"
    by (simp add: get_col_def m3)
  define times where "times = map (\<lambda>v. ts_cell (to_datetime ext raw_time v)) raw_time"
  define df5 where "df5 = set_col (set_col df3 col_shuju_shijian times) col_riqi (map (strftime_cell ext) times)"
  have dl': "datetimelike ext raw_time"
    using dl rt by (simp add: column_def raw_def)
  have run: "process_low_cycle_data ext p = select df5 standard_columns"
    using fm g3 dl' unfolding process_low_cycle_data_def Let_def raw_def [symmetric]
    by (simp add: df3_def [symmetric] times_def [symmetric] df5_def [symmetric])
  have sub: "set standard_columns \<subseteq> set (colnames df5)"
    by (auto simp: df5_def df3_def set_colnames_set_col set_colnames_set_scalar colnames_add_missing)
  define f where "f = (\<lambda>c. the (map_of (cols df5) c))"
  define out where "out = df5\<lparr>cols := map (\<lambda>c. (c, f c)) standard_columns\<rparr>"
  have res: "process_low_cycle_data ext p = Inr out"
    using run select_ok [OF sub] by (simp add: f_def out_def)
  have nr5: "nrows out = nrows raw"
    by (simp add: out_def df5_def df3_def nrows_set_col nrows_set_scalar nrows_add_missing)
  have co: "cols out = map (\<lambda>c. (c, f c)) standard_columns"
    by (simp add: out_def)
  have m5: "map_of (cols df5) = (map_of (cols (add_missing_columns raw)))
      (col_yuanwenjian \<mapsto> replicate (nrows raw) (Str (basename p)),
       col_shuju_leixing \<mapsto> replicate (nrows raw) (Str kw_dihuan),
       col_shuju_shijian \<mapsto> times, col_riqi \<mapsto> map (strftime_cell ext) times)"
    by (simp add: df5_def df3_def map_of_set_col map_of_set_scalar nrows_set_scalar nrows_add_missing)
  have f1: "f col_yuanwenjian = replicate (nrows raw) (Str (basename p))"
    using stamp_cols_distinct by (simp add: f_def m5)
  have f2: "f col_shuju_leixing = replicate (nrows raw) (Str kw_dihuan)"
    using stamp_cols_distinct by (simp add: f_def m5)
  have f3: "f c = (if c \<in> set (colnames raw) then the (map_of (cols raw) c) else replicate (nrows raw) NA)"
    if "c \<notin> {col_yuanwenjian, col_shuju_leixing, col_shuju_shijian, col_riqi}" "c \<in> set standard_columns" for c
    using that by (simp add: f_def m5 map_of_add_missing)
  have f4: "length (f c) = nrows raw" if wf: "wf_frame raw" and c: "c \<in> set standard_columns" for c
  proof (cases "c \<in> {col_yuanwenjian, col_shuju_leixing, col_shuju_shijian, col_riqi}")
    case True
    have "length times = nrows raw"
      using wf_frame_length [OF wf rt] by (simp add: times_def)
    with True show ?thesis using stamp_cols_distinct by (auto simp: f_def m5)
  next
    case False
    show ?thesis
    proof (cases "c \<in> set (colnames raw)")
      case True
      then obtain vs where "map_of (cols raw) c = Some vs" by (auto simp: in_colnames_iff)
      then show ?thesis using f3 [OF False c] True wf_frame_length [OF wf] by simp
    next
      case nin: False
      then show ?thesis using f3 [OF False c] by simp
    qed
  qed
  show ?thesis
    unfolding raw_def [symmetric]
    using res nr5 co f1 f2 f3 f4 by blast
qed

lemma process_two_network_data_run:
  assumes req: "set required_two \<subseteq> set (colnames (read_excel ext p))"
    and dt: "re_search_date (basename p) = Some file_date"
  shows "\<exists>out f. process_two_network_data ext p = Inr out \<and>
     nrows out = nrows (read_excel ext p) \<and> cols out = map (\<lambda>c. (c, f c)) standard_columns \<and>
     f col_yuanwenjian = replicate (nrows (read_excel ext p)) (Str (basename p)) \<and>
     f col_shuju_leixing = replicate (nrows (read_excel ext p)) (Str kw_erwang) \<and>
     f col_riqi = replicate (nrows (read_excel ext p)) (Str file_date) \<and>
     (wf_frame (read_excel ext p) \<longrightarrow> (\<forall>c \<in> set standard_columns. length (f c) = nrows (read_excel ext p))) \<and>
     (\<forall>c \<in> set standard_columns. c \<notin> {col_yuanwenjian, col_shuju_leixing, col_shuju_shijian, col_riqi} \<longrightarrow>
        f c = (if c \<in> set (colnames (read_excel ext p)) then the (map_of (cols (read_excel ext p)) c)
               else replicate (nrows (read_excel ext p)) NA))"
proof -
  define raw where "raw = read_excel ext p"
  define df3 where "df3 = set_scalar (set_scalar (add_missing_columns raw) col_yuanwenjian (Str (basename p)))
                             col_shuju_leixing (Str kw_erwang)"
  have fm: "first_missing required_two raw = None"
    using req by (simp add: first_missing_None raw_def)
  have sj_in: "col_shuju_shijian \<in> set (colnames raw)"
    using req shijian_required by (auto simp: raw_def)
  then obtain raw_time where rt: "map_of (cols raw) col_shuju_shijian = Some raw_time"
    by (auto simp: in_colnames_iff)
  have m3: "map_of (cols df3) col_shuju_shijian = Some raw_time"
    using rt sj_in stamp_cols_distinct
    by (simp add: df3_def map_of_set_scalar map_of_add_missing)
  have g3: "get_col df3 col_shuju_shijian = Inr raw_time"
    by (simp add: get_col_def m3)
  define times where "times = map (combine_datetime ext file_date) raw_time"
  define df4 where "df4 = set_scalar df3 col_riqi (Str file_date)"
  have g4: "get_col df4 col_shuju_shijian = Inr raw_time"
    using m3 stamp_cols_distinct by (simp add: get_col_def df4_def map_of_set_scalar)
  define df5 where "df5 = set_col df4 col_shuju_shijian times"
  have run: "process_two_network_data ext p = select df5 standard_columns"
    using fm g4 dt unfolding process_two_network_data_def Let_def raw_def [symmetric]
    by (simp add: df3_def [symmetric] df4_def [symmetric] times_def [symmetric] df5_def [symmetric])
  have sub: "set standard_columns \<subseteq> set (colnames df5)"
    by (auto simp: df5_def df4_def df3_def set_colnames_set_col set_colnames_set_scalar colnames_add_missing)
  define f where "f = (\<lambda>c. the (map_of (cols df5) c))"
  define out where "out = df5\<lparr>cols := map (\<lambda>c. (c, f c)) standard_columns\<rparr>"
  have res: "process_two_network_data ext p = Inr out"
    using run select_ok [OF sub] by (simp add: f_def out_def)
  have nr5: "nrows out = nrows raw"
    by (simp add: out_def df5_def df4_def df3_def nrows_set_col nrows_set_scalar nrows_add_missing)
  have co: "cols out = map (\<lambda>c. (c, f c)) standard_columns"
    by (simp add: out_def)
  have m5: "map_of (cols df5) = (map_of (cols (add_missing_columns raw)))
      (col_yuanwenjian \<mapsto> replicate (nrows raw) (Str (basename p)),
       col_shuju_leixing \<mapsto> replicate (nrows raw) (Str kw_erwang),
       col_riqi \<mapsto> replicate (nrows raw) (Str file_date), col_shuju_shijian \<mapsto> times)"
    by (simp add: df5_def df4_def df3_def map_of_set_col map_of_set_scalar nrows_set_scalar nrows_add_missing)
  have f1: "f col_yuanwenjian = replicate (nrows raw) (Str (basename p))"
    using stamp_cols_distinct by (simp add: f_def m5)
  have f2: "f col_shuju_leixing = replicate (nrows raw) (Str kw_erwang)"
    using stamp_cols_distinct by (simp add: f_def m5)
  have f5: "f col_riqi = replicate (nrows raw) (Str file_date)"
    using stamp_cols_distinct by (simp add: f_def m5)
  have f3: "f c = (if c \<in> set (colnames raw) then the (map_of (cols raw) c) else replicate (nrows raw) NA)"
    if "c \<notin> {col_yuanwenjian, col_shuju_leixing, col_shuju_shijian, col_riqi}" "c \<in> set standard_columns" for c
    using that by (simp add: f_def m5 map_of_add_missing)
  have f4: "length (f c) = nrows raw" if wf: "wf_frame raw" and c: "c \<in> set standard_columns" for c
  proof (cases "c \<in> {col_yuanwenjian, col_shuju_leixing, col_shuju_shijian, col_riqi}")
    case True
    have "length times = nrows raw"
      using wf_frame_length [OF wf rt] by (simp add: times_def)
    with True show ?thesis using stamp_cols_distinct by (auto simp: f_def m5)
  next
    case False
    show ?thesis
    proof (cases "c \<in> set (colnames raw)")
      case True
      then obtain vs where "map_of (cols raw) c = Some vs" by (auto simp: in_colnames_iff)
      then show ?thesis using f3 [OF False c] True wf_frame_length [OF wf] by simp
    next
      case nin: False
      then show ?thesis using f3 [OF False c] by simp
    qed
  qed
  show ?thesis
    unfolding raw_def [symmetric]
    using res nr5 co f1 f2 f3 f4 f5 by blast
qed

lemma first_char_split:
  assumes "first_char s = Some (cp, rest)"
  shows "\<exists>pre. s = pre @ rest \<and> (\<forall>t. first_char (pre @ t) = Some (cp, t))"
proof (cases s)
  case Nil
  with assms show ?thesis by simp
next
  case (Cons b bs)
  define n where "n = (of_char b :: nat)"
  consider (one) "n < 128" | (two) "192 \<le> n \<and> n < 224" | (three) "224 \<le> n \<and> n < 240"
    | (four) "240 \<le> n \<and> n < 248" | (none) "128 \<le> n \<and> n < 192 \<or> 248 \<le> n"
    by linarith
  then show ?thesis
  proof cases
    case one
    with assms Cons have "cp = n" "rest = bs" by (simp_all add: n_def)
    with one Cons show ?thesis by (intro exI [of _ "[b]"]) (simp add: n_def)
  next
    case two
    with assms Cons obtain b1 where bs: "bs = b1 # rest" and cp: "cp = (n - 192) * 64 + continuation b1"
      by (auto simp: n_def Let_def split: list.splits)
    with two Cons show ?thesis by (intro exI [of _ "[b, b1]"]) (simp add: n_def)
  next
    case three
    with assms Cons obtain b1 b2 where bs: "bs = b1 # b2 # rest"
      and cp: "cp = ((n - 224) * 64 + continuation b1) * 64 + continuation b2"
      by (auto simp: n_def Let_def split: list.splits)
    with three Cons show ?thesis by (intro exI [of _ "[b, b1, b2]"]) (simp add: n_def)
  next
    case four
    with assms Cons obtain b1 b2 b3 where bs: "bs = b1 # b2 # b3 # rest"
      and cp: "cp = (((n - 240) * 64 + continuation b1) * 64 + continuation b2) * 64 + continuation b3"
      by (auto simp: n_def Let_def split: list.splits)
    with four Cons show ?thesis by (intro exI [of _ "[b, b1, b2, b3]"]) (simp add: n_def)
  next
    case none
    with assms Cons show ?thesis by (auto simp: n_def Let_def)
  qed
qed

lemma match_here_split:
  "match_here items s = Some rest \<Longrightarrow>
   \<exists>pre. s = pre @ rest \<and> (\<forall>t. match_here items (pre @ t) = Some t)"
proof (induction items s rule: match_here.induct)
  case (1 s)
  then show ?case by simp
next
  case (2 items s)
  from "2.prems" obtain cp r where fc: "first_char s = Some (cp, r)" and dg: "is_digit cp"
    and mh: "match_here items r = Some rest"
    by (auto split: option.splits if_splits)
  from first_char_split [OF fc] obtain p1 where p1: "s = p1 @ r" "\<And>t. first_char (p1 @ t) = Some (cp, t)"
    by blast
  from "2.IH" [OF fc refl dg mh] obtain p2 where p2: "r = p2 @ rest" "\<And>t. match_here items (p2 @ t) = Some t"
    by blast
  show ?case
    using p1 p2 dg by (intro exI [of _ "p1 @ p2"]) simp
next
  case (3 c items s)
  from "3.prems" obtain r where s: "s = c # r" and mh: "match_here items r = Some rest"
    by (auto split: list.splits if_splits)
  from "3.IH" [OF s refl mh] obtain p2 where p2: "r = p2 @ rest" "\<And>t. match_here items (p2 @ t) = Some t"
    by blast
  show ?case
    using s p2 by (intro exI [of _ "c # p2"]) simp
qed

lemma match_here_iff_prefix:
  "match_here items s \<noteq> None \<longleftrightarrow> (\<exists>n \<le> length s. match_here items (take n s) = Some [])"
proof
  assume "match_here items s \<noteq> None"
  then obtain rest where "match_here items s = Some rest" by auto
  from match_here_split [OF this] obtain pre where p: "s = pre @ rest" "\<And>t. match_here items (pre @ t) = Some t"
    by blast
  have "match_here items (take (length pre) s) = Some []"
    using p(2) [of "[]"] p(1) by simp
  moreover have "length pre \<le> length s" using p(1) by simp
  ultimately show "\<exists>n \<le> length s. match_here items (take n s) = Some []" by blast
next
  assume "\<exists>n \<le> length s. match_here items (take n s) = Some []"
  then obtain n where n: "match_here items (take n s) = Some []" by blast
  from match_here_split [OF n] obtain pre where p: "take n s = pre @ []" "\<And>t. match_here items (pre @ t) = Some t"
    by blast
  have "match_here items (take n s @ drop n s) = Some (drop n s)"
    using p by simp
  then show "match_here items s \<noteq> None" by simp
qed

lemma list_ex_upt_Suc: "list_ex P [0 ..< Suc n] = (P 0 \<or> list_ex (\<lambda>i. P (Suc i)) [0 ..< n])"
proof -
  have e: "[0 ..< Suc n] = 0 # map Suc [0 ..< n]"
    by (simp only: map_Suc_upt upt_conv_Cons [symmetric])
  show ?thesis
    unfolding e by (simp add: list_ex_iff image_iff Bex_def del: image_Suc_atLeastLessThan set_upt) (auto simp: image_iff)
qed

lemma list_ex_upt_le: "list_ex P [0 ..< Suc n] \<longleftrightarrow> (\<exists>k \<le> n. P k)"
  unfolding list_ex_iff set_upt by (auto simp: less_Suc_eq_le)

lemma date_at_start:
  "list_ex (\<lambda>n. is_date_text (take n s)) [0 ..< Suc (length s)] \<longleftrightarrow> match_here date_pattern s \<noteq> None"
  unfolding match_here_iff_prefix is_date_text_def list_ex_upt_le ..

lemma date_window:
  "list_ex (\<lambda>n. is_date_text (take n (drop i s))) [0 ..< Suc (length s)]
     \<longleftrightarrow> match_here date_pattern (drop i s) \<noteq> None"
proof -
  have "(\<exists>n \<le> length s. is_date_text (take n (drop i s)))
      \<longleftrightarrow> (\<exists>n \<le> length (drop i s). is_date_text (take n (drop i s)))"
  proof
    assume "\<exists>n \<le> length s. is_date_text (take n (drop i s))"
    then obtain n where n: "is_date_text (take n (drop i s))" by blast
    have "take (min n (length xs)) xs = take n xs" for xs :: string
      by (cases "n \<le> length xs") (simp_all add: min_def)
    then have "take (min n (length (drop i s))) (drop i s) = take n (drop i s)" .
    with n have "is_date_text (take (min n (length (drop i s))) (drop i s))" by simp
    moreover have "min n (length (drop i s)) \<le> length (drop i s)" by simp
    ultimately show "\<exists>n \<le> length (drop i s). is_date_text (take n (drop i s))" by blast
  next
    assume "\<exists>n \<le> length (drop i s). is_date_text (take n (drop i s))"
    then obtain n where "n \<le> length (drop i s)" "is_date_text (take n (drop i s))" by blast
    moreover have "length (drop i s) \<le> length s" by simp
    ultimately show "\<exists>n \<le> length s. is_date_text (take n (drop i s))"
      using le_trans by blast
  qed
  then show ?thesis
    unfolding list_ex_upt_le using date_at_start [of "drop i s"] unfolding list_ex_upt_le by simp
qed

lemma has_date_substring_offset:
  "has_date_substring s \<longleftrightarrow> list_ex (\<lambda>i. match_here date_pattern (drop i s) \<noteq> None) [0 ..< Suc (length s)]"
  unfolding has_date_substring_def date_window ..

lemma has_date_substring_Nil: "\<not> has_date_substring []"
  by (simp add: has_date_substring_offset date_pattern_def)

lemma has_date_substring_Cons:
  "has_date_substring (c # s) \<longleftrightarrow> match_here date_pattern (c # s) \<noteq> None \<or> has_date_substring s"
  unfolding has_date_substring_offset length_Cons
  by (subst list_ex_upt_Suc) simp

lemma re_search_date_None: "re_search_date s = None \<longleftrightarrow> \<not> has_date_substring s"
  by (induction s) (auto simp: has_date_substring_Nil has_date_substring_Cons split: option.splits)

lemma distinct_required: "distinct required_low" "distinct required_two"
  by (simp_all add: required_low_def required_two_def col_defs)

lemma colnames_demo: "colnames demo_low = required_low" "colnames demo_two = required_two"
  by (simp_all add: demo_low_def demo_two_def colnames_def comp_def)

lemma demo_datetimelike: "datetimelike (demo_extern listing sheets) col"
  by (simp add: demo_extern_def)

lemmas date_eval = date_pattern_def is_digit_def decimal_digit_ranges_def continuation_def

lemma wf_demo: "wf_frame demo_low" "wf_frame demo_two"
  by (simp_all add: wf_frame_def colnames_demo distinct_required)
     (simp_all add: demo_low_def demo_two_def list_all_iff)

lemma process_low_cycle_data_missing:
  "first_missing required_low (read_excel ext p) = Some c \<Longrightarrow>
   process_low_cycle_data ext p = Inl (MissingColumn LowCycle c)"
  by (simp add: process_low_cycle_data_def)

lemma process_two_network_data_missing:
  "first_missing required_two (read_excel ext p) = Some c \<Longrightarrow>
   process_two_network_data ext p = Inl (MissingColumn TwoNetwork c)"
  by (simp add: process_two_network_data_def)

lemma process_two_network_data_nodate:
  "set required_two \<subseteq> set (colnames (read_excel ext p)) \<Longrightarrow> re_search_date (basename p) = None \<Longrightarrow>
   process_two_network_data ext p = Inl (NoDateInFilename (basename p))"
  using first_missing_None [of required_two "read_excel ext p"]
  by (simp add: process_two_network_data_def Let_def)

lemma first_missing_cases:
  "(set req \<subseteq> set (colnames df) \<and> first_missing req df = None) \<or>
   (\<exists>c. first_missing req df = Some c \<and> c \<in> set req \<and> c \<notin> set (colnames df))"
  using first_missing_None [of req df] first_missing_Some [of req df]
  by (cases "first_missing req df") auto


section \<open>Schema unification: when it fails\<close>

text \<open>
  Claim C6, as the code has it. Unifying a sheet of the first category fails, naming a
  required column that is absent, exactly when some required column is absent. When all
  are present it succeeds exactly when the parsed time column is datetime-like, and the
  date derivation raises \<open>AttributeError\<close> otherwise. Unifying a sheet of the second category
  fails naming a required column exactly when one of its required columns is absent; it
  fails naming the file exactly when all required columns are present and no part of the
  file name reads YYYY-MM-DD, the digits being decimal digits of any script; and it
  succeeds exactly when all required columns are present and the name contains such a date.
  The column check comes first, so a sheet with both defects is reported by its column.
\<close>

theorem unify_failure_conditions:
  "((\<exists>c. process_low_cycle_data ext p = Inl (MissingColumn LowCycle c) \<and>
          c \<in> set required_low \<and> c \<notin> set (colnames (read_excel ext p)))
      \<longleftrightarrow> \<not> set required_low \<subseteq> set (colnames (read_excel ext p))) \<and>
   ((\<exists>out. process_low_cycle_data ext p = Inr out)
      \<longleftrightarrow> set required_low \<subseteq> set (colnames (read_excel ext p)) \<and>
          datetimelike ext (column (read_excel ext p) col_shuju_shijian)) \<and>
   (process_low_cycle_data ext p = Inl AttributeError
      \<longleftrightarrow> set required_low \<subseteq> set (colnames (read_excel ext p)) \<and>
          \<not> datetimelike ext (column (read_excel ext p) col_shuju_shijian)) \<and>
   ((\<exists>c. process_two_network_data ext p = Inl (MissingColumn TwoNetwork c) \<and>
          c \<in> set required_two \<and> c \<notin> set (colnames (read_excel ext p)))
      \<longleftrightarrow> \<not> set required_two \<subseteq> set (colnames (read_excel ext p))) \<and>
   (process_two_network_data ext p = Inl (NoDateInFilename (basename p))
      \<longleftrightarrow> set required_two \<subseteq> set (colnames (read_excel ext p)) \<and> \<not> has_date_substring (basename p)) \<and>
   ((\<exists>out. process_two_network_data ext p = Inr out)
      \<longleftrightarrow> set required_two \<subseteq> set (colnames (read_excel ext p)) \<and> has_date_substring (basename p))"
proof -
  define raw where "raw = read_excel ext p"
  define dl where "dl = datetimelike ext (column raw col_shuju_shijian)"
  have low: "(set required_low \<subseteq> set (colnames raw) \<and> dl \<and> (\<exists>out. process_low_cycle_data ext p = Inr out)) \<or>
     (set required_low \<subseteq> set (colnames raw) \<and> \<not> dl \<and> process_low_cycle_data ext p = Inl AttributeError) \<or>
     (\<exists>c. process_low_cycle_data ext p = Inl (MissingColumn LowCycle c) \<and> c \<in> set required_low \<and> c \<notin> set (colnames raw))"
    using first_missing_cases [of required_low raw] process_low_cycle_data_run [of ext p]
      process_low_cycle_data_objects [of ext p] process_low_cycle_data_missing [of ext p]
    unfolding raw_def dl_def by blast
  have two: "(set required_two \<subseteq> set (colnames raw) \<and> has_date_substring (basename p) \<and> (\<exists>out. process_two_network_data ext p = Inr out)) \<or>
     (set required_two \<subseteq> set (colnames raw) \<and> \<not> has_date_substring (basename p) \<and>
        process_two_network_data ext p = Inl (NoDateInFilename (basename p))) \<or>
     (\<exists>c. process_two_network_data ext p = Inl (MissingColumn TwoNetwork c) \<and> c \<in> set required_two \<and> c \<notin> set (colnames raw))"
  proof (cases "set required_two \<subseteq> set (colnames raw)")
    case req: True
    show ?thesis
    proof (cases "re_search_date (basename p)")
      case None
      then show ?thesis
        using req process_two_network_data_nodate [of ext p] re_search_date_None [of "basename p"]
        by (simp add: raw_def)
    next
      case (Some d)
      then have "has_date_substring (basename p)"
        using re_search_date_None [of "basename p"] by auto
      then show ?thesis
        using req process_two_network_data_run [of ext p d] Some unfolding raw_def by blast
    qed
  next
    case False
    then show ?thesis
      using first_missing_cases [of required_two raw] process_two_network_data_missing [of ext p]
      unfolding raw_def by blast
  qed
  from low have l1: "(\<exists>c. process_low_cycle_data ext p = Inl (MissingColumn LowCycle c) \<and>
          c \<in> set required_low \<and> c \<notin> set (colnames raw)) \<longleftrightarrow> \<not> set required_low \<subseteq> set (colnames raw)"
    by auto
  from low have l2: "(\<exists>out. process_low_cycle_data ext p = Inr out) \<longleftrightarrow> set required_low \<subseteq> set (colnames raw) \<and> dl"
    by auto
  from low have l3: "process_low_cycle_data ext p = Inl AttributeError \<longleftrightarrow> set required_low \<subseteq> set (colnames raw) \<and> \<not> dl"
    by auto
  from two have t1: "(\<exists>c. process_two_network_data ext p = Inl (MissingColumn TwoNetwork c) \<and>
          c \<in> set required_two \<and> c \<notin> set (colnames raw)) \<longleftrightarrow> \<not> set required_two \<subseteq> set (colnames raw)"
    by auto
  from two have t2: "process_two_network_data ext p = Inl (NoDateInFilename (basename p))
      \<longleftrightarrow> set required_two \<subseteq> set (colnames raw) \<and> \<not> has_date_substring (basename p)"
    by auto
  from two have t3: "(\<exists>out. process_two_network_data ext p = Inr out)
      \<longleftrightarrow> set required_two \<subseteq> set (colnames raw) \<and> has_date_substring (basename p)"
    by auto
  show ?thesis
    using l1 l2 l3 t1 t2 t3 unfolding raw_def dl_def by blast
qed

theorem unify_failure_conditions_witness:
  "process_two_network_data (demo_extern [] (\<lambda>p. demo_two)) ''in/erwang.xlsx''
     = Inl (NoDateInFilename ''erwang.xlsx'') \<and>
   (\<exists>out. process_two_network_data (demo_extern [] (\<lambda>p. demo_two)) ''in/erwang_2023-11-20.xlsx'' = Inr out) \<and>
   (\<exists>out. process_two_network_data (demo_extern [] (\<lambda>p. demo_two)) demo_fullwidth_path = Inr out) \<and>
   (\<exists>out. process_low_cycle_data (demo_extern [] (\<lambda>p. demo_low)) ''in/dihuan.xlsx'' = Inr out) \<and>
   process_low_cycle_data ((demo_extern [] (\<lambda>p. demo_low))\<lparr>datetimelike := \<lambda>col. False\<rparr>) ''in/dihuan.xlsx''
     = Inl AttributeError"
proof -
  have b1: "basename ''in/erwang.xlsx'' = ''erwang.xlsx''"
    and b2: "basename ''in/erwang_2023-11-20.xlsx'' = ''erwang_2023-11-20.xlsx''"
    by (simp_all add: basename_def)
  have d1: "\<not> has_date_substring ''erwang.xlsx''"
    unfolding re_search_date_None [symmetric] by (simp add: date_eval)
  have d2: "has_date_substring ''erwang_2023-11-20.xlsx''"
    using re_search_date_None [of "''erwang_2023-11-20.xlsx''"] by (simp add: date_eval)
  have d3: "has_date_substring (basename demo_fullwidth_path)"
    using re_search_date_None [of "basename demo_fullwidth_path"]
    by (simp add: demo_fullwidth_path_def basename_def date_eval)
  have r: "read_excel (demo_extern [] (\<lambda>p. demo_two)) q = demo_two"
    "read_excel (demo_extern [] (\<lambda>p. demo_low)) q = demo_low"
    "read_excel ((demo_extern [] (\<lambda>p. demo_low))\<lparr>datetimelike := \<lambda>col. False\<rparr>) q = demo_low" for q
    by (simp_all add: demo_extern_def)
  show ?thesis
    using unify_failure_conditions [of "demo_extern [] (\<lambda>p. demo_two)" "''in/erwang.xlsx''"]
      unify_failure_conditions [of "demo_extern [] (\<lambda>p. demo_two)" "''in/erwang_2023-11-20.xlsx''"]
      unify_failure_conditions [of "demo_extern [] (\<lambda>p. demo_two)" demo_fullwidth_path]
      unify_failure_conditions [of "demo_extern [] (\<lambda>p. demo_low)" "''in/dihuan.xlsx''"]
      unify_failure_conditions [of "(demo_extern [] (\<lambda>p. demo_low))\<lparr>datetimelike := \<lambda>col. False\<rparr>" "''in/dihuan.xlsx''"]
    by (simp add: r colnames_demo b1 b2 d1 d2 d3 demo_datetimelike)
qed

text \<open>
  As the claim words it, a second-category sheet fails naming the file whenever its name
  has no date. A sheet that also lacks a required column is reported by that column.
\<close>

theorem both_defects_name_the_column:
  "\<not> has_date_substring (basename ''in/erwang.xlsx'') \<and>
   process_two_network_data (demo_extern [] (\<lambda>p. demo_low)) ''in/erwang.xlsx''
     = Inl (MissingColumn TwoNetwork col_huanlu) \<and>
   process_two_network_data (demo_extern [] (\<lambda>p. demo_low)) ''in/erwang.xlsx''
     \<noteq> Inl (NoDateInFilename (basename ''in/erwang.xlsx''))"
proof -
  have b1: "basename ''in/erwang.xlsx'' = ''erwang.xlsx''"
    by (simp add: basename_def)
  have d1: "\<not> has_date_substring ''erwang.xlsx''"
    unfolding re_search_date_None [symmetric] by (simp add: date_eval)
  have "first_missing required_two demo_low = Some col_huanlu"
    by (simp add: first_missing_def colnames_demo required_two_def required_low_def col_defs)
  then have "process_two_network_data (demo_extern [] (\<lambda>p. demo_low)) ''in/erwang.xlsx''
     = Inl (MissingColumn TwoNetwork col_huanlu)"
    by (intro process_two_network_data_missing) (simp add: demo_extern_def)
  then show ?thesis
    using b1 d1 by simp
qed


lemma column_tabulate:
  "cols df = map (\<lambda>c. (c, f c)) cs \<Longrightarrow> c \<in> set cs \<Longrightarrow> column df c = f c"
  by (simp add: column_def map_of_tabulate)

lemma colnames_tabulate: "cols df = map (\<lambda>c. (c, f c)) cs \<Longrightarrow> colnames df = cs"
  by (simp add: colnames_def comp_def)

lemma wf_frame_tabulated:
  "cols df = map (\<lambda>c. (c, f c)) cs \<Longrightarrow> distinct cs \<Longrightarrow>
   (\<And>c. c \<in> set cs \<Longrightarrow> length (f c) = nrows df) \<Longrightarrow> wf_frame df"
  by (auto simp: wf_frame_def colnames_def list_all_iff comp_def)

lemma column_present:
  "c \<in> set (colnames df) \<Longrightarrow> the (map_of (cols df) c) = column df c"
  by (auto simp: column_def in_colnames_iff)

lemma process_low_cycle_data_Inr:
  "process_low_cycle_data ext p = Inr out \<Longrightarrow>
   set required_low \<subseteq> set (colnames (read_excel ext p)) \<and>
   datetimelike ext (column (read_excel ext p) col_shuju_shijian)"
  using first_missing_cases [of required_low "read_excel ext p"] process_low_cycle_data_missing [of ext p]
    process_low_cycle_data_objects [of ext p]
  by auto

lemma process_two_network_data_Inr:
  "process_two_network_data ext p = Inr out \<Longrightarrow>
   set required_two \<subseteq> set (colnames (read_excel ext p)) \<and> (\<exists>d. re_search_date (basename p) = Some d)"
  using first_missing_cases [of required_two "read_excel ext p"] process_two_network_data_missing [of ext p]
    process_two_network_data_nodate [of ext p]
  by (cases "re_search_date (basename p)") auto

lemma unified_shape:
  assumes wf: "wf_frame (read_excel ext p)"
    and ok: "process_low_cycle_data ext p = Inr out \<or> process_two_network_data ext p = Inr out"
  shows "\<exists>f. nrows out = nrows (read_excel ext p) \<and> cols out = map (\<lambda>c. (c, f c)) standard_columns \<and>
     (\<forall>c \<in> set standard_columns. length (f c) = nrows (read_excel ext p)) \<and>
     (\<forall>c \<in> set standard_columns. c \<notin> {col_yuanwenjian, col_shuju_leixing, col_shuju_shijian, col_riqi} \<longrightarrow>
        f c = (if c \<in> set (colnames (read_excel ext p)) then the (map_of (cols (read_excel ext p)) c)
               else replicate (nrows (read_excel ext p)) NA)) \<and>
     col_shuju_shijian \<in> set (colnames (read_excel ext p))"
  using ok
proof
  assume a: "process_low_cycle_data ext p = Inr out"
  have req: "set required_low \<subseteq> set (colnames (read_excel ext p))"
    and dl: "datetimelike ext (column (read_excel ext p) col_shuju_shijian)"
    using process_low_cycle_data_Inr [OF a] by auto
  show ?thesis
    using process_low_cycle_data_run [OF req dl] a wf shijian_required(1) req by auto
next
  assume a: "process_two_network_data ext p = Inr out"
  obtain d where req: "set required_two \<subseteq> set (colnames (read_excel ext p))"
    and d: "re_search_date (basename p) = Some d"
    using process_two_network_data_Inr [OF a] by auto
  show ?thesis
    using process_two_network_data_run [OF req d] a wf shijian_required(2) req by auto
qed


section \<open>Schema unification: the unified table\<close>

text \<open>
  Claim C5, as the code has it. When unification of a sheet of either category succeeds,
  the unified table has exactly the 27 canonical columns in the canonical order and as
  many rows as the sheet. Every canonical column that the sheet lacks is filled with
  missing values, except the three columns that are stamped or derived: source file,
  source category and calendar date. Every canonical column that the sheet has keeps its
  cells, except those three and the data-time column, which is parsed.
\<close>

theorem unified_table_schema:
  assumes wf: "wf_frame (read_excel ext p)"
    and ok: "process_low_cycle_data ext p = Inr out \<or> process_two_network_data ext p = Inr out"
  shows "colnames out = standard_columns \<and> length (colnames out) = 27 \<and>
     nrows out = nrows (read_excel ext p) \<and> wf_frame out \<and>
     (\<forall>c \<in> set standard_columns.
        c \<notin> set (colnames (read_excel ext p)) \<and> c \<notin> {col_yuanwenjian, col_shuju_leixing, col_riqi}
        \<longrightarrow> column out c = replicate (nrows out) NA) \<and>
     (\<forall>c \<in> set standard_columns.
        c \<in> set (colnames (read_excel ext p)) \<and>
        c \<notin> {col_yuanwenjian, col_shuju_leixing, col_riqi, col_shuju_shijian}
        \<longrightarrow> column out c = column (read_excel ext p) c)"
proof -
  obtain f where n: "nrows out = nrows (read_excel ext p)"
    and c: "cols out = map (\<lambda>c. (c, f c)) standard_columns"
    and len: "\<And>c. c \<in> set standard_columns \<Longrightarrow> length (f c) = nrows (read_excel ext p)"
    and rest: "\<And>c. c \<in> set standard_columns \<Longrightarrow>
        c \<notin> {col_yuanwenjian, col_shuju_leixing, col_shuju_shijian, col_riqi} \<Longrightarrow>
        f c = (if c \<in> set (colnames (read_excel ext p)) then the (map_of (cols (read_excel ext p)) c)
               else replicate (nrows (read_excel ext p)) NA)"
    and sj: "col_shuju_shijian \<in> set (colnames (read_excel ext p))"
    using unified_shape [OF wf ok] by blast
  have cn: "colnames out = standard_columns"
    using c by (rule colnames_tabulate)
  have wfo: "wf_frame out"
    using c distinct_standard_columns by (rule wf_frame_tabulated) (simp add: len n)
  have absent: "column out c = replicate (nrows out) NA"
    if "c \<in> set standard_columns" "c \<notin> set (colnames (read_excel ext p))"
      "c \<notin> {col_yuanwenjian, col_shuju_leixing, col_riqi}" for c
  proof -
    have "c \<noteq> col_shuju_shijian" using that(2) sj by auto
    then show ?thesis
      using that rest [of c] column_tabulate [OF c that(1)] by (simp add: n)
  qed
  have present: "column out c = column (read_excel ext p) c"
    if "c \<in> set standard_columns" "c \<in> set (colnames (read_excel ext p))"
      "c \<notin> {col_yuanwenjian, col_shuju_leixing, col_riqi, col_shuju_shijian}" for c
    using that rest [of c] column_tabulate [OF c that(1)] column_present [OF that(2)] by simp
  show ?thesis
    using cn n wfo absent present by (simp add: length_standard_columns)
qed

theorem unified_table_schema_witness:
  "\<exists>out. process_low_cycle_data (demo_extern [] (\<lambda>p. demo_low)) ''in/dihuan.xlsx'' = Inr out \<and>
     colnames out = standard_columns \<and> nrows out = 2 \<and> wf_frame out \<and>
     column out col_huanlu = [NA, NA] \<and> column out col_shiwen_wendu = [Ts 0, Num 21]"
proof -
  let ?e = "demo_extern [] (\<lambda>p. demo_low)"
  have r: "read_excel ?e ''in/dihuan.xlsx'' = demo_low"
    by (simp add: demo_extern_def)
  have "set required_low \<subseteq> set (colnames (read_excel ?e ''in/dihuan.xlsx''))"
    by (simp add: r colnames_demo)
  then obtain out where o: "process_low_cycle_data ?e ''in/dihuan.xlsx'' = Inr out"
    using process_low_cycle_data_run [of ?e "''in/dihuan.xlsx''", OF _ demo_datetimelike] by blast
  have wf: "wf_frame (read_excel ?e ''in/dihuan.xlsx'')"
    by (simp add: r wf_demo)
  have a: "col_huanlu \<in> set standard_columns \<and> col_huanlu \<notin> set (colnames demo_low) \<and>
      col_huanlu \<notin> {col_yuanwenjian, col_shuju_leixing, col_riqi}"
    by (simp add: colnames_demo standard_columns_def required_low_def col_defs)
  have b: "col_shiwen_wendu \<in> set standard_columns \<and> col_shiwen_wendu \<in> set (colnames demo_low) \<and>
      col_shiwen_wendu \<notin> {col_yuanwenjian, col_shuju_leixing, col_riqi, col_shuju_shijian}"
    by (simp add: colnames_demo standard_columns_def required_low_def col_defs)
  have cw: "column demo_low col_shiwen_wendu = [Ts 0, Num 21]"
    by (simp add: column_def demo_low_def map_of_tabulate required_low_def)
  have nr: "nrows demo_low = 2"
    by (simp add: demo_low_def)
  show ?thesis
    using unified_table_schema [OF wf disjI1, OF o] o a b
    by (auto simp: r cw nr numeral_2_eq_2)
qed

text \<open>
  As the claim words it, every canonical column absent from the sheet is filled with
  nulls. The source-file column is absent from the sample sheet and carries the file name.
\<close>

theorem provenance_columns_not_null:
  "case process_low_cycle_data (demo_extern [] (\<lambda>p. demo_low)) ''in/dihuan.xlsx'' of
     Inl e \<Rightarrow> False
   | Inr out \<Rightarrow>
       col_yuanwenjian \<in> set standard_columns \<and> col_yuanwenjian \<notin> set (colnames demo_low) \<and>
       column out col_yuanwenjian = [Str ''dihuan.xlsx'', Str ''dihuan.xlsx''] \<and>
       column out col_yuanwenjian \<noteq> replicate (nrows out) NA"
proof -
  let ?e = "demo_extern [] (\<lambda>p. demo_low)"
  have r: "read_excel ?e ''in/dihuan.xlsx'' = demo_low"
    by (simp add: demo_extern_def)
  have "set required_low \<subseteq> set (colnames (read_excel ?e ''in/dihuan.xlsx''))"
    by (simp add: r colnames_demo)
  from process_low_cycle_data_run [OF this demo_datetimelike]
  obtain out f where o: "process_low_cycle_data ?e ''in/dihuan.xlsx'' = Inr out"
    and n: "nrows out = nrows demo_low"
    and c: "cols out = map (\<lambda>c. (c, f c)) standard_columns"
    and y: "f col_yuanwenjian = replicate (nrows demo_low) (Str (basename ''in/dihuan.xlsx''))"
    unfolding r by blast
  have a: "col_yuanwenjian \<in> set standard_columns \<and> col_yuanwenjian \<notin> set (colnames demo_low)"
    by (simp add: colnames_demo standard_columns_def required_low_def col_defs)
  have "column out col_yuanwenjian = f col_yuanwenjian"
    using c a by (simp add: column_tabulate)
  then have "column out col_yuanwenjian = [Str ''dihuan.xlsx'', Str ''dihuan.xlsx'']"
    by (simp add: y demo_low_def basename_def numeral_2_eq_2)
  then show ?thesis
    using o a n by (simp add: demo_low_def numeral_2_eq_2)
qed

section \<open>Facts about concatenation\<close>

lemma first_seen_covered: "set xs \<subseteq> set seen \<Longrightarrow> first_seen seen xs = []"
  by (induction xs) auto

lemma first_seen_fresh:
  "distinct cs \<Longrightarrow> set cs \<inter> set seen = {} \<Longrightarrow>
   first_seen seen (cs @ rest) = cs @ first_seen (rev cs @ seen) rest"
  by (induction cs arbitrary: seen) auto

lemma first_seen_uniform:
  assumes "dfs \<noteq> []" "distinct cs" "\<forall>d \<in> set dfs. colnames d = cs"
  shows "first_seen [] (concat (map colnames dfs)) = cs"
proof -
  obtain d ds where dfs: "dfs = d # ds" using assms(1) by (cases dfs) auto
  have "set (concat (map colnames ds)) \<subseteq> set cs"
    using assms(3) dfs by auto
  then have "first_seen (rev cs @ []) (concat (map colnames ds)) = []"
    by (intro first_seen_covered) simp
  then show ?thesis
    using first_seen_fresh [of cs "[]" "concat (map colnames ds)"] assms(2,3) dfs by simp
qed

lemma cols_as_tabulate:
  assumes "distinct (colnames df)"
  shows "cols df = map (\<lambda>c. (c, column df c)) (colnames df)"
proof -
  have "(fst p, column df (fst p)) = p" if "p \<in> set (cols df)" for p
  proof -
    have "map_of (cols df) (fst p) = Some (snd p)"
      using assms that by (simp add: colnames_def)
    then show ?thesis by (simp add: column_def)
  qed
  then show ?thesis
    by (simp add: colnames_def comp_def map_idI)
qed

lemma frame_row_tabulate:
  "cols df = map (\<lambda>c. (c, g c)) cs \<Longrightarrow> frame_row df i = map (\<lambda>c. (c, g c ! i)) cs"
  by (simp add: frame_row_def comp_def)

lemma column_length: "wf_frame df \<Longrightarrow> c \<in> set (colnames df) \<Longrightarrow> length (column df c) = nrows df"
  using wf_frame_length [of df c] by (auto simp: column_def in_colnames_iff)

lemma frame_rows_stack:
  assumes "\<forall>d \<in> set dfs. colnames d = cs \<and> wf_frame d"
  shows "frame_rows (stack_frames cs dfs) = concat (map frame_rows dfs)"
  using assms
proof (induction dfs)
  case Nil
  then show ?case by (simp add: frame_rows_def stack_frames_def)
next
  case (Cons d ds)
  let ?F = "stack_frames cs (d # ds)"
  have cd: "colnames d = cs" and wd: "wf_frame d" using Cons.prems by auto
  have dc: "distinct cs" using cd wd by (auto simp: wf_frame_def)
  have colsd: "cols d = map (\<lambda>c. (c, column d c)) cs"
    using cols_as_tabulate [of d] cd dc by simp
  have len: "length (column d c) = nrows d" if "c \<in> set cs" for c
    using column_length [OF wd] that cd by simp
  have colsF: "cols ?F = map (\<lambda>c. (c, column d c @ concat (map (\<lambda>e. column e c) ds))) cs"
    by (simp add: stack_frames_def)
  have colsS: "cols (stack_frames cs ds) = map (\<lambda>c. (c, concat (map (\<lambda>e. column e c) ds))) cs"
    by (simp add: stack_frames_def)
  have lo: "frame_row ?F i = frame_row d i" if "i < nrows d" for i
    unfolding frame_row_tabulate [OF colsF] frame_row_tabulate [OF colsd]
    using that len by (simp add: nth_append)
  have hi: "frame_row ?F (nrows d + i) = frame_row (stack_frames cs ds) i" for i
    unfolding frame_row_tabulate [OF colsF] frame_row_tabulate [OF colsS]
    using len by (simp add: nth_append)
  have n: "nrows ?F = nrows d + nrows (stack_frames cs ds)"
    by (simp add: stack_frames_def)
  have "frame_rows ?F = map (frame_row ?F) [0 ..< nrows d] @
      map (frame_row ?F) [nrows d ..< nrows d + nrows (stack_frames cs ds)]"
  proof -
    have "[0 ..< nrows d + nrows (stack_frames cs ds)]
        = [0 ..< nrows d] @ [nrows d ..< nrows d + nrows (stack_frames cs ds)]"
      by (rule upt_add_eq_append) simp
    then show ?thesis
      by (simp only: frame_rows_def n map_append)
  qed
  also have "map (frame_row ?F) [0 ..< nrows d] = frame_rows d"
    unfolding frame_rows_def using lo by simp
  also have "map (frame_row ?F) [nrows d ..< nrows d + nrows (stack_frames cs ds)]
      = map (\<lambda>i. frame_row ?F (nrows d + i)) [0 ..< nrows (stack_frames cs ds)]"
  proof -
    have "[nrows d ..< nrows d + nrows (stack_frames cs ds)]
        = map (\<lambda>i. nrows d + i) [0 ..< nrows (stack_frames cs ds)]"
      using map_add_upt [of "nrows d" "nrows (stack_frames cs ds)"] by (simp add: add.commute)
    then show ?thesis by (simp only: map_map comp_def)
  qed
  also have "\<dots> = frame_rows (stack_frames cs ds)"
    unfolding frame_rows_def using hi by simp
  also have "\<dots> = concat (map frame_rows ds)"
    using Cons by simp
  finally show ?case by simp
qed

lemma concat_frames_uniform:
  assumes ne: "dfs \<noteq> []" and dc: "distinct cs"
    and un: "\<forall>d \<in> set dfs. colnames d = cs \<and> wf_frame d"
  shows "concat_frames dfs = Inr (stack_frames cs dfs)"
proof -
  have names: "first_seen [] (concat (map colnames dfs)) = cs"
    using first_seen_uniform [OF ne dc] un by simp
  have "(case map_of (cols d) c of None \<Rightarrow> replicate (nrows d) NA | Some vs \<Rightarrow> vs) = column d c"
    if "d \<in> set dfs" "c \<in> set cs" for d c
    using that un by (auto simp: column_def in_colnames_iff split: option.splits)
  then have "map (\<lambda>c. (c, concat (map (\<lambda>d. case map_of (cols d) c of
                 None \<Rightarrow> replicate (nrows d) NA | Some vs \<Rightarrow> vs) dfs))) cs
      = map (\<lambda>c. (c, concat (map (\<lambda>d. column d c) dfs))) cs"
    by (intro map_cong refl) (simp cong: map_cong)
  then show ?thesis
    using ne names by (simp add: concat_frames_def stack_frames_def)
qed

lemma stack_frames_shape:
  assumes dc: "distinct cs" and un: "\<forall>d \<in> set dfs. colnames d = cs \<and> wf_frame d"
  shows "colnames (stack_frames cs dfs) = cs" "wf_frame (stack_frames cs dfs)"
    "nrows (stack_frames cs dfs) = sum_list (map nrows dfs)"
    "c \<in> set cs \<Longrightarrow> column (stack_frames cs dfs) c = concat (map (\<lambda>d. column d c) dfs)"
proof -
  have c: "cols (stack_frames cs dfs) = map (\<lambda>c. (c, concat (map (\<lambda>d. column d c) dfs))) cs"
    by (simp add: stack_frames_def)
  show "colnames (stack_frames cs dfs) = cs"
    using c by (rule colnames_tabulate)
  show n: "nrows (stack_frames cs dfs) = sum_list (map nrows dfs)"
    by (simp add: stack_frames_def)
  have "length (concat (map (\<lambda>d. column d c) dfs)) = sum_list (map nrows dfs)" if "c \<in> set cs" for c
  proof -
    have e: "map (\<lambda>d. length (column d c)) dfs = map nrows dfs"
      using un that column_length by (intro map_cong refl) auto
    have "length (concat (map (\<lambda>d. column d c) dfs)) = sum_list (map (\<lambda>d. length (column d c)) dfs)"
      by (simp add: length_concat comp_def)
    then show ?thesis by (simp only: e)
  qed
  then have "\<And>c. c \<in> set cs \<Longrightarrow>
      length (concat (map (\<lambda>d. column d c) dfs)) = nrows (stack_frames cs dfs)"
    by (simp only: n)
  with c dc show "wf_frame (stack_frames cs dfs)"
    by (rule wf_frame_tabulated)
  show "column (stack_frames cs dfs) c = concat (map (\<lambda>d. column d c) dfs)" if "c \<in> set cs"
    using c that by (rule column_tabulate)
qed

lemma concat_replicate_same:
  "concat (map (\<lambda>d. replicate (n d) v) dfs) = replicate (sum_list (map n dfs)) v"
  by (induction dfs) (simp_all add: replicate_add)

lemma stack_frames_tagged:
  assumes "\<forall>d \<in> set dfs. tagged_table kw d"
  shows "tagged_table kw (stack_frames standard_columns dfs)"
proof -
  have un: "\<forall>d \<in> set dfs. colnames d = standard_columns \<and> wf_frame d"
    using assms by (simp add: tagged_table_def)
  have e: "map (\<lambda>d. column d col_shuju_leixing) dfs = map (\<lambda>d. replicate (nrows d) (Str kw)) dfs"
    using assms by (intro map_cong refl) (simp add: tagged_table_def)
  have "column (stack_frames standard_columns dfs) col_shuju_leixing
      = replicate (sum_list (map nrows dfs)) (Str kw)"
    unfolding stack_frames_shape(4) [OF distinct_standard_columns un stamp_cols_standard(2)]
    by (simp only: e concat_replicate_same)
  then show ?thesis
    using stack_frames_shape(1-3) [OF distinct_standard_columns un]
    by (simp add: tagged_table_def)
qed

lemma tagged_table_rows:
  assumes "tagged_table kw df" "r \<in> set (frame_rows df)"
  shows "row_tag r = Some (Str kw)"
proof -
  obtain i where i: "i < nrows df" and r: "r = frame_row df i"
    using assms(2) by (auto simp: frame_rows_def)
  have dc: "distinct (colnames df)" using assms(1) by (auto simp: tagged_table_def wf_frame_def)
  have c: "cols df = map (\<lambda>c. (c, column df c)) standard_columns"
    using cols_as_tabulate [OF dc] assms(1) by (simp add: tagged_table_def)
  have "row_tag r = Some (column df col_shuju_leixing ! i)"
    unfolding r row_tag_def frame_row_tabulate [OF c]
    using stamp_cols_standard(2) by (simp add: map_of_tabulate)
  then show ?thesis
    using assms(1) i by (simp add: tagged_table_def)
qed

lemma length_frame_rows: "length (frame_rows df) = nrows df"
  by (simp add: frame_rows_def)

lemma process_all_Inr:
  "process_all f files = Inr dfs \<Longrightarrow> list_all2 (\<lambda>p d. f p = Inr d) files dfs"
  by (induction files arbitrary: dfs) (auto split: sum.splits)

lemma process_all_ok:
  "\<forall>p \<in> set files. \<exists>d. f p = Inr d \<Longrightarrow> \<exists>dfs. process_all f files = Inr dfs"
  by (induction files) auto

lemma list_all2_map_eq:
  "list_all2 (\<lambda>p d. g d = h p) files dfs \<Longrightarrow> map g dfs = map h files"
  by (induction rule: list_all2_induct) auto

lemma keywords_differ: "kw_dihuan \<noteq> kw_erwang"
  by (simp add: kw_dihuan_def kw_erwang_def)

lemma unified_low_tagged:
  assumes "process_low_cycle_data ext p = Inr u" "wf_frame (read_excel ext p)"
  shows "tagged_table kw_dihuan u \<and> nrows u = nrows (read_excel ext p)"
proof -
  have req: "set required_low \<subseteq> set (colnames (read_excel ext p))"
    and dl: "datetimelike ext (column (read_excel ext p) col_shuju_shijian)"
    using process_low_cycle_data_Inr [OF assms(1)] by auto
  from process_low_cycle_data_run [OF req dl] assms
  obtain f where n: "nrows u = nrows (read_excel ext p)"
    and c: "cols u = map (\<lambda>c. (c, f c)) standard_columns"
    and t: "f col_shuju_leixing = replicate (nrows (read_excel ext p)) (Str kw_dihuan)"
    and len: "\<And>c. c \<in> set standard_columns \<Longrightarrow> length (f c) = nrows (read_excel ext p)"
    by auto
  have "wf_frame u"
    using c distinct_standard_columns by (rule wf_frame_tabulated) (simp add: len n)
  then show ?thesis
    using colnames_tabulate [OF c] column_tabulate [OF c stamp_cols_standard(2)] t n
    by (simp add: tagged_table_def)
qed

lemma unified_two_tagged:
  assumes "process_two_network_data ext p = Inr u" "wf_frame (read_excel ext p)"
  shows "tagged_table kw_erwang u \<and> nrows u = nrows (read_excel ext p)"
proof -
  obtain d where req: "set required_two \<subseteq> set (colnames (read_excel ext p))"
    and d: "re_search_date (basename p) = Some d"
    using process_two_network_data_Inr [OF assms(1)] by auto
  from process_two_network_data_run [OF req d] assms
  obtain f where n: "nrows u = nrows (read_excel ext p)"
    and c: "cols u = map (\<lambda>c. (c, f c)) standard_columns"
    and t: "f col_shuju_leixing = replicate (nrows (read_excel ext p)) (Str kw_erwang)"
    and len: "\<And>c. c \<in> set standard_columns \<Longrightarrow> length (f c) = nrows (read_excel ext p)"
    by auto
  have "wf_frame u"
    using c distinct_standard_columns by (rule wf_frame_tabulated) (simp add: len n)
  then show ?thesis
    using colnames_tabulate [OF c] column_tabulate [OF c stamp_cols_standard(2)] t n
    by (simp add: tagged_table_def)
qed

lemma tagged_all:
  assumes "list_all2 (\<lambda>p d. f p = Inr d) files dfs"
    and "\<And>p d. f p = Inr d \<Longrightarrow> tagged_table kw d \<and> nrows d = nrows (g p)"
  shows "(\<forall>d \<in> set dfs. tagged_table kw d) \<and> map nrows dfs = map (\<lambda>p. nrows (g p)) files"
  using assms(1)
proof (induction rule: list_all2_induct)
  case Nil
  then show ?case by simp
next
  case (Cons p ps d ds)
  then show ?case using assms(2) [of p d] by simp
qed

lemma tagged_stack:
  assumes ne: "dfs \<noteq> []" and tg: "\<forall>d \<in> set dfs. tagged_table kw d"
    and cf: "concat_frames dfs = Inr out"
  shows "tagged_table kw out \<and> nrows out = sum_list (map nrows dfs) \<and>
    frame_rows out = concat (map frame_rows dfs)"
proof -
  have un: "\<forall>d \<in> set dfs. colnames d = standard_columns \<and> wf_frame d"
    using tg by (simp add: tagged_table_def)
  have out: "out = stack_frames standard_columns dfs"
    using concat_frames_uniform [OF ne distinct_standard_columns un] cf by simp
  show ?thesis
    unfolding out
    using stack_frames_tagged [OF tg] frame_rows_stack [OF un]
      stack_frames_shape(3) [OF distinct_standard_columns un]
    by simp
qed

lemma filter_append_split:
  "\<forall>a \<in> set A. P a \<Longrightarrow> \<forall>b \<in> set B. \<not> P b \<Longrightarrow> filter P (A @ B) = A"
  "\<forall>a \<in> set A. \<not> P a \<Longrightarrow> \<forall>b \<in> set B. P b \<Longrightarrow> filter P (A @ B) = B"
  by (simp_all add: filter_id_conv filter_empty_conv)


lemma concat_frames_ok: "dfs \<noteq> [] \<Longrightarrow> \<exists>out. concat_frames dfs = Inr out"
  by (simp add: concat_frames_def)

lemma demo_files:
  "find_data_files (demo_extern demo_listing demo_sheets) ''in''
     = ([demo_low_path], [demo_two_path])"
  by (simp add: demo_low_path_def demo_two_path_def find_data_files_def demo_extern_def demo_listing_def kw_dihuan_def kw_erwang_def
      endswith_def startswith_def path_join_def)

lemma demo_reads:
  "read_excel (demo_extern demo_listing demo_sheets) demo_low_path = demo_low"
  "read_excel (demo_extern demo_listing demo_sheets) demo_two_path = demo_two"
  by (simp_all add: demo_low_path_def demo_two_path_def demo_extern_def demo_sheets_def kw_dihuan_def kw_erwang_def)

lemma demo_date:
  "re_search_date (basename demo_two_path) = Some ''2023-11-20''"
  by (simp add: demo_two_path_def basename_def kw_erwang_def date_eval)

lemma wf_demo_sheets: "wf_frame (read_excel (demo_extern demo_listing demo_sheets) p)"
  by (simp add: demo_extern_def demo_sheets_def wf_demo)


section \<open>The merge orchestrator\<close>

text \<open>
  Claim C7. Whenever the merge succeeds on well-formed sheets, with unified tables
  \<open>us\<close> of the first category (N rows in all) and \<open>vs\<close> of the second (M rows in all),
  the master table has exactly N + M rows, exactly N of them carry the first category's tag
  and exactly M the second's, and its rows are the rows of \<open>us\<close> in their order followed
  by the rows of \<open>vs\<close> in theirs; unification keeps the row count of every sheet.
\<close>

theorem merge_count_conservation:
  assumes wf: "\<forall>p. wf_frame (read_excel ext p)"
    and m: "merge_all_data ext data_dir = Inr out"
  shows "\<exists>us vs.
      process_all (process_low_cycle_data ext) (fst (find_data_files ext data_dir)) = Inr us \<and>
      process_all (process_two_network_data ext) (snd (find_data_files ext data_dir)) = Inr vs \<and>
      map nrows us = map (\<lambda>p. nrows (read_excel ext p)) (fst (find_data_files ext data_dir)) \<and>
      map nrows vs = map (\<lambda>p. nrows (read_excel ext p)) (snd (find_data_files ext data_dir)) \<and>
      nrows out = sum_list (map nrows us) + sum_list (map nrows vs) \<and>
      length (frame_rows out) = sum_list (map nrows us) + sum_list (map nrows vs) \<and>
      length (filter (\<lambda>r. row_tag r = Some (Str kw_dihuan)) (frame_rows out)) = sum_list (map nrows us) \<and>
      length (filter (\<lambda>r. row_tag r = Some (Str kw_erwang)) (frame_rows out)) = sum_list (map nrows vs) \<and>
      frame_rows out = concat (map frame_rows us) @ concat (map frame_rows vs) \<and>
      filter (\<lambda>r. row_tag r = Some (Str kw_dihuan)) (frame_rows out) = concat (map frame_rows us) \<and>
      filter (\<lambda>r. row_tag r = Some (Str kw_erwang)) (frame_rows out) = concat (map frame_rows vs)"
proof -
  obtain lows twos where fd: "find_data_files ext data_dir = (lows, twos)"
    by (cases "find_data_files ext data_dir")
  from m obtain us lc vs tc where ln: "lows \<noteq> []" and tn: "twos \<noteq> []"
    and pu: "process_all (process_low_cycle_data ext) lows = Inr us"
    and cu: "concat_frames us = Inr lc"
    and pv: "process_all (process_two_network_data ext) twos = Inr vs"
    and cv: "concat_frames vs = Inr tc"
    and co: "concat_frames [lc, tc] = Inr out"
    by (auto simp: merge_all_data_def fd split: if_splits sum.splits)
  have au: "list_all2 (\<lambda>p d. process_low_cycle_data ext p = Inr d) lows us"
    using pu by (rule process_all_Inr)
  have av: "list_all2 (\<lambda>p d. process_two_network_data ext p = Inr d) twos vs"
    using pv by (rule process_all_Inr)
  have tu: "(\<forall>d \<in> set us. tagged_table kw_dihuan d) \<and> map nrows us = map (\<lambda>p. nrows (read_excel ext p)) lows"
    using au by (rule tagged_all) (use wf unified_low_tagged in blast)
  have tv: "(\<forall>d \<in> set vs. tagged_table kw_erwang d) \<and> map nrows vs = map (\<lambda>p. nrows (read_excel ext p)) twos"
    using av by (rule tagged_all) (use wf unified_two_tagged in blast)
  have une: "us \<noteq> []" using au ln by (auto simp: list_all2_Nil2)
  have vne: "vs \<noteq> []" using av tn by (auto simp: list_all2_Nil2)
  have slc: "tagged_table kw_dihuan lc \<and> nrows lc = sum_list (map nrows us) \<and>
      frame_rows lc = concat (map frame_rows us)"
    using une _ cu by (rule tagged_stack) (use tu in blast)
  have stc: "tagged_table kw_erwang tc \<and> nrows tc = sum_list (map nrows vs) \<and>
      frame_rows tc = concat (map frame_rows vs)"
    using vne _ cv by (rule tagged_stack) (use tv in blast)
  have un: "\<forall>d \<in> set [lc, tc]. colnames d = standard_columns \<and> wf_frame d"
    using slc stc by (simp add: tagged_table_def)
  have out: "out = stack_frames standard_columns [lc, tc]"
    using concat_frames_uniform [OF _ distinct_standard_columns un] co by simp
  have rows: "frame_rows out = concat (map frame_rows us) @ concat (map frame_rows vs)"
    unfolding out using frame_rows_stack [OF un] slc stc by simp
  have n: "nrows out = sum_list (map nrows us) + sum_list (map nrows vs)"
    unfolding out using slc stc by (simp add: stack_frames_def)
  have ra: "\<forall>r \<in> set (concat (map frame_rows us)). row_tag r = Some (Str kw_dihuan)"
    using slc tagged_table_rows [of kw_dihuan lc] by auto
  have rb: "\<forall>r \<in> set (concat (map frame_rows vs)). row_tag r = Some (Str kw_erwang)"
    using stc tagged_table_rows [of kw_erwang tc] by auto
  have fa: "filter (\<lambda>r. row_tag r = Some (Str kw_dihuan)) (frame_rows out) = concat (map frame_rows us)"
    unfolding rows using ra rb keywords_differ by (intro filter_append_split(1)) auto
  have fb: "filter (\<lambda>r. row_tag r = Some (Str kw_erwang)) (frame_rows out) = concat (map frame_rows vs)"
    unfolding rows using ra rb keywords_differ by (intro filter_append_split(2)) auto
  have la: "length (concat (map frame_rows us)) = sum_list (map nrows us)"
    using slc length_frame_rows [of lc] by simp
  have lb: "length (concat (map frame_rows vs)) = sum_list (map nrows vs)"
    using stc length_frame_rows [of tc] by simp
  show ?thesis
    using pu pv tu tv n rows fa fb la lb length_frame_rows [of out]
    by (intro exI [of _ us] exI [of _ vs]) (simp add: fd)
qed

theorem merge_count_conservation_witness:
  "\<exists>out. merge_all_data (demo_extern demo_listing demo_sheets) ''in'' = Inr out \<and>
     nrows out = 5 \<and>
     length (filter (\<lambda>r. row_tag r = Some (Str kw_dihuan)) (frame_rows out)) = 2 \<and>
     length (filter (\<lambda>r. row_tag r = Some (Str kw_erwang)) (frame_rows out)) = 3"
proof -
  let ?e = "demo_extern demo_listing demo_sheets"
  let ?lp = "demo_low_path"
  let ?tp = "demo_two_path"
  have "set required_low \<subseteq> set (colnames (read_excel ?e ?lp))"
    by (simp add: demo_reads colnames_demo)
  then obtain u where u: "process_low_cycle_data ?e ?lp = Inr u"
    using process_low_cycle_data_run [of ?e ?lp, OF _ demo_datetimelike] by blast
  have "set required_two \<subseteq> set (colnames (read_excel ?e ?tp))"
    by (simp add: demo_reads colnames_demo)
  then obtain v where v: "process_two_network_data ?e ?tp = Inr v"
    using process_two_network_data_run [of ?e ?tp, OF _ demo_date] by blast
  obtain lc where lc: "concat_frames [u] = Inr lc"
    using concat_frames_ok [of "[u]"] by auto
  obtain tc where tc: "concat_frames [v] = Inr tc"
    using concat_frames_ok [of "[v]"] by auto
  obtain out where out: "concat_frames [lc, tc] = Inr out"
    using concat_frames_ok [of "[lc, tc]"] by auto
  have m: "merge_all_data ?e ''in'' = Inr out"
    by (simp add: merge_all_data_def demo_files u v lc tc out)
  have wf: "\<forall>p. wf_frame (read_excel ?e p)"
    using wf_demo_sheets by simp
  have n: "nrows demo_low = 2" "nrows demo_two = 3"
    by (simp_all add: demo_low_def demo_two_def)
  show ?thesis
    using merge_count_conservation [OF wf m] m
    by (auto simp: demo_files u v demo_reads n)
qed

section \<open>Facts about whole hours\<close>

lemma hour_ns_pos: "0 < hour_ns"
  by (simp add: hour_ns_def)

lemma floor_h_bounds: "floor_h t \<le> t \<and> t < floor_h t + hour_ns"
proof -
  have "t = (t div hour_ns) * hour_ns + t mod hour_ns" by simp
  moreover have "0 \<le> t mod hour_ns" "t mod hour_ns < hour_ns"
    using hour_ns_pos by simp_all
  ultimately show ?thesis unfolding floor_h_def by linarith
qed

lemma floor_h_le: "floor_h t \<le> t"
  using floor_h_bounds [of t] by simp

lemma floor_h_aligned: "hour_ns dvd floor_h t"
  by (simp add: floor_h_def)

lemma ceil_h_aligned: "hour_ns dvd ceil_h t"
  by (simp add: ceil_h_def)

lemma ceil_h_ge: "t \<le> ceil_h t"
proof -
  have "- t = ((- t) div hour_ns) * hour_ns + (- t) mod hour_ns" by simp
  moreover have "0 \<le> (- t) mod hour_ns"
    using hour_ns_pos by simp
  ultimately show ?thesis unfolding ceil_h_def by linarith
qed

lemma floor_h_unique:
  assumes "hour_ns dvd t"
  shows "(t \<le> ts \<and> ts < t + hour_ns) \<longleftrightarrow> floor_h ts = t"
proof
  assume a: "t \<le> ts \<and> ts < t + hour_ns"
  obtain k where k: "t = k * hour_ns" using assms by (auto simp: dvd_def mult.commute)
  have "ts div hour_ns = k"
  proof -
    have "ts = k * hour_ns + (ts - t)" using k by simp
    moreover have "0 \<le> ts - t" "ts - t < hour_ns" using a by auto
    ultimately show ?thesis
      by (metis div_pos_pos_trivial add.commute div_mult_self3 hour_ns_pos less_irrefl add.right_neutral)
  qed
  then show "floor_h ts = t" by (simp add: floor_h_def k)
next
  assume "floor_h ts = t"
  then show "t \<le> ts \<and> ts < t + hour_ns" using floor_h_bounds [of ts] by simp
qed

lemma floor_h_mono: "a \<le> b \<Longrightarrow> floor_h a \<le> floor_h b"
  using hour_ns_pos by (simp add: floor_h_def zdiv_mono1)

lemma length_date_range: "length (date_range a b) = nat ((b - a) div hour_ns + 1)"
  by (simp add: date_range_def)

lemma set_date_range:
  assumes "hour_ns dvd a" "hour_ns dvd b"
  shows "set (date_range a b) = {x. hour_ns dvd x \<and> a \<le> x \<and> x \<le> b}"
proof (intro set_eqI iffI)
  fix x assume "x \<in> set (date_range a b)"
  then obtain k where k: "k < nat ((b - a) div hour_ns + 1)" and x: "x = a + int k * hour_ns"
    by (auto simp: date_range_def)
  have "int k \<le> (b - a) div hour_ns" using k by linarith
  then have "int k * hour_ns \<le> ((b - a) div hour_ns) * hour_ns"
    using hour_ns_pos by (simp add: mult_right_mono)
  also have "\<dots> \<le> b - a"
    using floor_h_le [of "b - a"] by (simp add: floor_h_def)
  finally have "x \<le> b" using x by simp
  moreover have "a \<le> x" using x hour_ns_pos by simp
  moreover have "hour_ns dvd x" using x assms(1) by simp
  ultimately show "x \<in> {x. hour_ns dvd x \<and> a \<le> x \<and> x \<le> b}" by simp
next
  fix x assume "x \<in> {x. hour_ns dvd x \<and> a \<le> x \<and> x \<le> b}"
  then have d: "hour_ns dvd x" and ax: "a \<le> x" and xb: "x \<le> b" by auto
  from d assms(1) have "hour_ns dvd (x - a)" by simp
  then obtain j where j: "x - a = j * hour_ns" by (auto simp: dvd_def mult.commute)
  have j0: "0 \<le> j"
    using ax j hour_ns_pos by (metis diff_ge_0_iff_ge zero_le_mult_iff not_less less_le_not_le)
  have "j = (x - a) div hour_ns" using j hour_ns_pos by simp
  also have "\<dots> \<le> (b - a) div hour_ns"
    using xb hour_ns_pos by (simp add: zdiv_mono1)
  finally have jb: "j \<le> (b - a) div hour_ns" .
  have "nat j < nat ((b - a) div hour_ns + 1)" using j0 jb by linarith
  moreover have "x = a + int (nat j) * hour_ns" using j j0 by simp
  ultimately show "x \<in> set (date_range a b)"
    unfolding date_range_def by (metis (no_types, lifting) atLeast0LessThan image_eqI lessThan_iff set_map set_upt)
qed

lemma distinct_date_range: "distinct (date_range a b)"
  using hour_ns_pos by (simp add: date_range_def distinct_map inj_on_def)

lemma sorted_date_range: "sorted (date_range a b)"
proof -
  have "mono (\<lambda>k. a + int k * hour_ns)"
    using hour_ns_pos by (simp add: mono_def mult_right_mono)
  then show ?thesis
    unfolding date_range_def by (simp add: sorted_map mono_def sorted_wrt_map sorted_wrt_upt)
       (metis (mono_tags, lifting) sorted_wrt_mono_rel sorted_upt of_nat_mono mult_right_mono less_imp_le hour_ns_pos)
qed

section \<open>The resampler without measurement columns\<close>

text \<open>
  Claim C9. A table with none of the four measurement columns (room temperature,
  instantaneous flow, supply temperature, return temperature) is returned as it is: nothing
  is bucketed, grouped or reindexed.
\<close>

theorem resample_without_measurements:
  assumes "\<forall>c \<in> set value_columns. c \<notin> set (columns df)"
  shows "resample_data df = Inr (Unchanged df)"
  using assms by (simp add: resample_data_def filter_empty_conv)

theorem resample_without_measurements_witness:
  "resample_data demo_no_measurement = Inr (Unchanged demo_no_measurement)"
proof -
  have "\<forall>c \<in> set value_columns. c \<notin> set (columns demo_no_measurement)"
    by (simp add: value_columns_def demo_no_measurement_def col_defs)
  then show ?thesis
    by (rule resample_without_measurements)
qed


section \<open>Facts about the resampler\<close>

lemma set_present: "set (present xs) = {x. Some x \<in> set xs}"
  by (induction xs rule: present.induct) auto

lemma series_min_None: "series_min xs = None \<longleftrightarrow> present xs = []"
  by (simp add: series_min_def split: list.splits)

lemma series_max_None: "series_max xs = None \<longleftrightarrow> present xs = []"
  by (simp add: series_max_def split: list.splits)

lemma series_min_Some:
  assumes "present xs \<noteq> []"
  shows "series_min xs = Some (Min (set (present xs)))"
proof -
  obtain t ts where p: "present xs = t # ts"
    using assms by (cases "present xs") auto
  have "fold min ts t = Min (set (t # ts))"
    by (rule Min.set_eq_fold [symmetric])
  then show ?thesis
    by (simp add: series_min_def p)
qed

lemma series_max_Some:
  assumes "present xs \<noteq> []"
  shows "series_max xs = Some (Max (set (present xs)))"
proof -
  obtain t ts where p: "present xs = t # ts"
    using assms by (cases "present xs") auto
  have "fold max ts t = Max (set (t # ts))"
    by (rule Max.set_eq_fold [symmetric])
  then show ?thesis
    by (simp add: series_max_def p)
qed

lemma present_nonempty: "present (map datetime rs) \<noteq> [] \<longleftrightarrow> (\<exists>r \<in> set rs. datetime r \<noteq> None)"
proof -
  have "present (map datetime rs) \<noteq> [] \<longleftrightarrow> set (present (map datetime rs)) \<noteq> {}"
    by simp
  also have "\<dots> \<longleftrightarrow> (\<exists>r \<in> set rs. datetime r \<noteq> None)"
    unfolding set_present by (auto simp: image_iff) (metis not_None_eq)+
  finally show ?thesis .
qed

lemma nanmean_eq: "nanmean vs = mean_or_missing (present vs)"
  by (simp add: nanmean_def mean_or_missing_def split: list.splits)

lemma in_bin_iff: "hour_ns dvd t \<Longrightarrow> in_bin t r = falls_in_hour t r"
  using floor_h_unique [of t] by (auto simp: in_bin_def falls_in_hour_def split: option.splits)

lemma resample_mean_ok:
  assumes "\<exists>r \<in> set rs. datetime r \<noteq> None"
  shows "resample_mean avail rs =
     Inr (map (\<lambda>t. (t, map (\<lambda>c. (c, nanmean (map (\<lambda>r. measure r c) (filter (in_bin t) rs)))) avail))
              (date_range (floor_h (Min (set (present (map datetime rs)))))
                          (floor_h (Max (set (present (map datetime rs)))))))"
proof -
  have p: "present (map datetime rs) \<noteq> []"
    using assms by (simp add: present_nonempty)
  have "rs \<noteq> []" using assms by auto
  then show ?thesis
    by (simp add: resample_mean_def series_min_Some [OF p] series_max_Some [OF p])
qed

lemma resample_mean_Inr:
  assumes "resample_mean avail rs = Inr gh" "rs \<noteq> []"
  shows "\<exists>r \<in> set rs. datetime r \<noteq> None"
proof (rule ccontr)
  assume "\<not> (\<exists>r \<in> set rs. datetime r \<noteq> None)"
  then have "present (map datetime rs) = []"
    using present_nonempty [of rs] by blast
  then have "series_min (map datetime rs) = None"
    by (simp add: series_min_None)
  then show False
    using assms by (simp add: resample_mean_def)
qed

lemma reindexed_bucket:
  assumes ok: "resample_mean avail g = Inr gh" and ne: "g \<noteq> []"
    and al: "hour_ns dvd t" and c: "c \<in> set avail"
  shows "map_of (case map_of gh t of None \<Rightarrow> map (\<lambda>c. (c, None)) avail | Some ms \<Rightarrow> ms) c
     = Some (mean_or_missing (hour_values g c t))"
proof -
  have v: "\<exists>r \<in> set g. datetime r \<noteq> None"
    using ok ne by (rule resample_mean_Inr)
  define lo where "lo = Min (set (present (map datetime g)))"
  define hi where "hi = Max (set (present (map datetime g)))"
  define F where "F = (\<lambda>t. map (\<lambda>c. (c, nanmean (map (\<lambda>r. measure r c) (filter (in_bin t) g)))) avail)"
  have gh: "gh = map (\<lambda>t. (t, F t)) (date_range (floor_h lo) (floor_h hi))"
    using resample_mean_ok [OF v, of avail] ok by (simp add: lo_def hi_def F_def)
  have same: "filter (in_bin t) g = filter (falls_in_hour t) g"
    using in_bin_iff [OF al] by (intro filter_cong refl) simp
  show ?thesis
  proof (cases "t \<in> set (date_range (floor_h lo) (floor_h hi))")
    case True
    then have "map_of gh t = Some (F t)"
      by (simp add: gh map_of_tabulate)
    moreover have "map_of (F t) c = Some (mean_or_missing (hour_values g c t))"
      using c by (simp add: F_def map_of_tabulate nanmean_eq same hour_values_def)
    ultimately show ?thesis by simp
  next
    case False
    then have none: "map_of gh t = None"
      by (simp add: gh map_of_tabulate)
    have "filter (falls_in_hour t) g = []"
    proof (rule ccontr)
      assume "filter (falls_in_hour t) g \<noteq> []"
      then obtain r where r: "r \<in> set g" "falls_in_hour t r"
        by (auto simp: filter_empty_conv)
      then obtain ts where ts: "datetime r = Some ts" "floor_h ts = t"
        by (auto simp: falls_in_hour_def split: option.splits)
      have m: "ts \<in> set (present (map datetime g))"
        using r(1) ts(1) by (auto simp: set_present image_iff) (metis)
      have "lo \<le> ts" "ts \<le> hi"
        unfolding lo_def hi_def using m by simp_all
      then have "floor_h lo \<le> t" "t \<le> floor_h hi"
        using floor_h_mono ts(2) by blast+
      then have "t \<in> set (date_range (floor_h lo) (floor_h hi))"
        using al by (simp add: set_date_range floor_h_aligned)
      with False show False by simp
    qed
    then have "hour_values g c t = []"
      by (simp add: hour_values_def)
    then show ?thesis
      using none c by (simp add: map_of_tabulate mean_or_missing_def)
  qed
qed

lemma map_fst_reindex: "map fst (reindex gh avail idx) = idx"
  by (simp add: reindex_def comp_def)

lemma grouped_results_Inr:
  "grouped_results avail idx groups = Inr parts \<Longrightarrow>
   list_all2 (\<lambda>kg part. \<exists>gh. resample_mean avail (snd kg) = Inr gh \<and>
       part = map (\<lambda>p. \<lparr>hour = fst p, means = snd p, group_key = Some (fst kg)\<rparr>) (reindex gh avail idx))
     groups parts"
proof (induction groups arbitrary: parts)
  case Nil
  then show ?case by simp
next
  case (Cons kg groups)
  obtain k g where kg: "kg = (k, g)" by (cases kg)
  from Cons.prems obtain gh others where
    a: "resample_mean avail g = Inr gh" and b: "grouped_results avail idx groups = Inr others"
    and p: "parts = map (\<lambda>p. \<lparr>hour = fst p, means = snd p, group_key = Some k\<rparr>) (reindex gh avail idx) # others"
    by (auto simp: kg split: sum.splits)
  show ?case
    using Cons.IH [OF b] a by (auto simp: p kg)
qed

lemma grouped_results_ok:
  "\<forall>kg \<in> set groups. \<exists>gh. resample_mean avail (snd kg) = Inr gh \<Longrightarrow>
   \<exists>parts. grouped_results avail idx groups = Inr parts"
proof (induction groups)
  case Nil
  then show ?case by simp
next
  case (Cons kg groups)
  obtain k g where kg: "kg = (k, g)" by (cases kg)
  from Cons obtain gh parts where "resample_mean avail g = Inr gh"
    "grouped_results avail idx groups = Inr parts"
    by (auto simp: kg)
  then show ?case by (simp add: kg)
qed

lemma other_keys_filtered:
  assumes "list_all2 (\<lambda>kg part. \<exists>gh. resample_mean avail (snd kg) = Inr gh \<and>
       part = map (\<lambda>p. \<lparr>hour = fst p, means = snd p, group_key = Some (fst kg)\<rparr>) (reindex gh avail idx))
     groups parts"
    and "k \<notin> fst ` set groups"
  shows "filter (\<lambda>h. group_key h = Some k) (concat parts) = []"
  using assms
  by (induction rule: list_all2_induct) (auto simp: filter_empty_conv)

lemma hours_of_key:
  assumes "list_all2 (\<lambda>kg part. \<exists>gh. resample_mean avail (snd kg) = Inr gh \<and>
       part = map (\<lambda>p. \<lparr>hour = fst p, means = snd p, group_key = Some (fst kg)\<rparr>) (reindex gh avail idx))
     groups parts"
    and "distinct (map fst groups)" and "k \<in> fst ` set groups"
  shows "map hour (filter (\<lambda>h. group_key h = Some k) (concat parts)) = idx"
  using assms
proof (induction rule: list_all2_induct)
  case Nil
  then show ?case by simp
next
  case (Cons kg groups part parts)
  from Cons.hyps(1) obtain gh where
    part: "part = map (\<lambda>p. \<lparr>hour = fst p, means = snd p, group_key = Some (fst kg)\<rparr>) (reindex gh avail idx)"
    by auto
  show ?case
  proof (cases "fst kg = k")
    case True
    then have "k \<notin> fst ` set groups" using Cons.prems(1) by auto
    then have rest: "filter (\<lambda>h. group_key h = Some k) (concat parts) = []"
      using other_keys_filtered [OF Cons.hyps(2)] by simp
    have "filter (\<lambda>h. group_key h = Some k) part = part"
      by (simp add: part True)
    then have "map hour (filter (\<lambda>h. group_key h = Some k) part) = map fst (reindex gh avail idx)"
      by (simp add: part comp_def)
    then show ?thesis
      using rest by (simp add: map_fst_reindex)
  next
    case False
    then have "filter (\<lambda>h. group_key h = Some k) part = []"
      by (simp add: part filter_empty_conv)
    moreover have "k \<in> fst ` set groups" using Cons.prems(2) False by auto
    ultimately show ?thesis
      using Cons.IH Cons.prems(1) by simp
  qed
qed

lemma groupby_keys: "map fst (groupby rs) = sort (remdups (map key_of rs))"
  by (simp add: groupby_def comp_def)

lemma groupby_distinct: "distinct (map fst (groupby rs))"
  by (simp add: groupby_keys)

lemma groupby_fst: "fst ` set (groupby rs) = key_of ` set rs"
proof -
  have "fst ` set (groupby rs) = set (map fst (groupby rs))" by simp
  also have "\<dots> = key_of ` set rs" unfolding groupby_keys by simp
  finally show ?thesis .
qed

lemma groupby_member:
  "kg \<in> set (groupby rs) \<Longrightarrow> snd kg = filter (\<lambda>r. key_of r = fst kg) rs \<and> fst kg \<in> key_of ` set rs"
  by (auto simp: groupby_def)

lemma parts_keys:
  assumes "list_all2 (\<lambda>kg part. \<exists>gh. resample_mean avail (snd kg) = Inr gh \<and>
       part = map (\<lambda>p. \<lparr>hour = fst p, means = snd p, group_key = Some (fst kg)\<rparr>) (reindex gh avail idx))
     groups parts"
    and "h \<in> set (concat parts)"
  shows "\<exists>kg \<in> set groups. \<exists>gh. resample_mean avail (snd kg) = Inr gh \<and>
     h \<in> set (map (\<lambda>p. \<lparr>hour = fst p, means = snd p, group_key = Some (fst kg)\<rparr>) (reindex gh avail idx))"
  using assms
  by (induction rule: list_all2_induct) auto

lemma timeline_eq:
  assumes "\<exists>r \<in> set (rows df). datetime r \<noteq> None"
  shows "series_min (map datetime (rows df)) = Some (Min (set (instants df)))"
    "series_max (map datetime (rows df)) = Some (Max (set (instants df)))"
    "Min (set (instants df)) \<le> Max (set (instants df))"
proof -
  have p: "present (map datetime (rows df)) \<noteq> []"
    using assms by (simp add: present_nonempty)
  show "series_min (map datetime (rows df)) = Some (Min (set (instants df)))"
    using series_min_Some [OF p] by (simp add: instants_def)
  show "series_max (map datetime (rows df)) = Some (Max (set (instants df)))"
    using series_max_Some [OF p] by (simp add: instants_def)
  show "Min (set (instants df)) \<le> Max (set (instants df))"
    using p by (simp add: instants_def)
qed

lemma length_timeline:
  assumes "Min (set (instants df)) \<le> Max (set (instants df))"
  shows "length (timeline df)
     = nat ((ceil_h (Max (set (instants df))) - floor_h (Min (set (instants df)))) div hour_ns) + 1"
proof -
  have "floor_h (Min (set (instants df))) \<le> ceil_h (Max (set (instants df)))"
    using assms floor_h_le [of "Min (set (instants df))"] ceil_h_ge [of "Max (set (instants df))"]
    by linarith
  then have "0 \<le> (ceil_h (Max (set (instants df))) - floor_h (Min (set (instants df)))) div hour_ns"
    using hour_ns_pos by (simp add: pos_imp_zdiv_nonneg_iff)
  then show ?thesis
    by (simp add: timeline_def length_date_range nat_add_distrib)
qed

lemma timeline_aligned: "t \<in> set (timeline df) \<Longrightarrow> hour_ns dvd t"
  by (simp add: timeline_def set_date_range floor_h_aligned ceil_h_aligned)


lemma present_Nil_iff: "present xs = [] \<longleftrightarrow> (\<forall>x \<in> set xs. x = None)"
  by (induction xs rule: present.induct) auto

lemma hour_values_Nil_iff:
  "hour_values rs c t = [] \<longleftrightarrow> (\<forall>r \<in> set rs. falls_in_hour t r \<longrightarrow> measure r c = None)"
  by (auto simp: hour_values_def present_Nil_iff)

lemma mean_or_missing_None: "mean_or_missing xs = None \<longleftrightarrow> xs = []"
  by (simp add: mean_or_missing_def)

lemma reindexed_row:
  assumes ok: "resample_mean avail g = Inr gh" and ne: "g \<noteq> []"
    and al: "\<forall>t \<in> set idx. hour_ns dvd t" and c: "c \<in> set avail"
    and p: "p \<in> set (reindex gh avail idx)"
  shows "map_of (snd p) c = Some (mean_or_missing (hour_values g c (fst p)))"
proof -
  from p obtain t where t: "t \<in> set idx"
    and pe: "p = (t, case map_of gh t of None \<Rightarrow> map (\<lambda>c. (c, None)) avail | Some ms \<Rightarrow> ms)"
    by (auto simp: reindex_def)
  show ?thesis
    using reindexed_bucket [OF ok ne _ c, of t] al t by (simp add: pe)
qed


section \<open>The resampler: one row per hour of the global timeline\<close>

text \<open>
  Claim C1, as the code has it. Take a table with a measurement column and the location and
  floor columns, with at least one row, in which every (location, floor) key has a row whose
  instant is not missing. Then the resampler returns an hourly table in which the rows of
  every key of the input are, in order, exactly the instants of the one global timeline, from
  the floor of the least instant of the whole table to the ceiling of the greatest. The
  timeline has no instant twice, so every key has the same number of rows: the number of
  whole hours between the two ends plus one. No row belongs to a key that is not in the input.
\<close>

theorem resample_full_timeline:
  assumes meas: "\<exists>c \<in> set value_columns. c \<in> set (columns df)"
    and keys: "col_weizhi \<in> set (columns df) \<and> col_louceng \<in> set (columns df)"
    and ne: "rows df \<noteq> []"
    and ts: "\<forall>r \<in> set (rows df). \<exists>r' \<in> set (rows df). key_of r' = key_of r \<and> datetime r' \<noteq> None"
  shows "\<exists>out. resample_data df = Inr (Hourly out) \<and>
     (\<forall>r \<in> set (rows df). map hour (filter (\<lambda>h. group_key h = Some (key_of r)) out) = timeline df) \<and>
     (\<forall>h \<in> set out. \<exists>r \<in> set (rows df). group_key h = Some (key_of r)) \<and>
     distinct (timeline df) \<and>
     length (timeline df)
       = nat ((ceil_h (Max (set (instants df))) - floor_h (Min (set (instants df)))) div hour_ns) + 1"
proof -
  define avail where "avail = filter (\<lambda>c. c \<in> set (columns df)) value_columns"
  have av: "avail \<noteq> []"
    using meas by (auto simp: avail_def filter_empty_conv)
  obtain r0 where "r0 \<in> set (rows df)" using ne by (cases "rows df") auto
  then have valid: "\<exists>r \<in> set (rows df). datetime r \<noteq> None"
    using ts by blast
  note tl = timeline_eq [OF valid]
  have each: "\<forall>kg \<in> set (groupby (rows df)). \<exists>gh. resample_mean avail (snd kg) = Inr gh"
  proof
    fix kg assume kg: "kg \<in> set (groupby (rows df))"
    then have g: "snd kg = filter (\<lambda>r. key_of r = fst kg) (rows df)"
      and k: "fst kg \<in> key_of ` set (rows df)"
      using groupby_member by blast+
    from k obtain r where "r \<in> set (rows df)" "key_of r = fst kg" by auto
    then obtain r' where "r' \<in> set (rows df)" "key_of r' = fst kg" "datetime r' \<noteq> None"
      using ts by metis
    then have "\<exists>r \<in> set (snd kg). datetime r \<noteq> None"
      unfolding g by auto
    then show "\<exists>gh. resample_mean avail (snd kg) = Inr gh"
      using resample_mean_ok by blast
  qed
  then obtain parts where gr: "grouped_results avail (timeline df) (groupby (rows df)) = Inr parts"
    using grouped_results_ok by blast
  note rel = grouped_results_Inr [OF gr]
  have "groupby (rows df) \<noteq> []"
    using groupby_fst [of "rows df"] ne by auto
  then have pne: "parts \<noteq> []"
    using list_all2_lengthD [OF rel] by auto
  have res: "resample_data df = Inr (Hourly (concat parts))"
    using av keys gr pne
    by (simp add: resample_data_def Let_def avail_def [symmetric] tl(1,2) timeline_def [symmetric])
  have one: "map hour (filter (\<lambda>h. group_key h = Some (key_of r)) (concat parts)) = timeline df"
    if "r \<in> set (rows df)" for r
    using rel groupby_distinct
  proof (rule hours_of_key)
    show "key_of r \<in> fst ` set (groupby (rows df))"
      using that by (simp add: groupby_fst)
  qed
  have two: "\<exists>r \<in> set (rows df). group_key h = Some (key_of r)" if "h \<in> set (concat parts)" for h
  proof -
    from parts_keys [OF rel that] obtain kg where "kg \<in> set (groupby (rows df))"
      "group_key h = Some (fst kg)" by auto
    then show ?thesis
      using groupby_member [of kg "rows df"] by auto
  qed
  show ?thesis
    using res one two length_timeline [OF tl(3)]
    by (intro exI [of _ "concat parts"]) (simp add: timeline_def distinct_date_range)
qed

lemma demo_two_keys_timeline:
  "timeline demo_two_keys = [0, hour_ns, 2 * hour_ns, 3 * hour_ns, 4 * hour_ns]"
  by (simp add: timeline_def instants_def demo_two_keys_def mk_reading_def date_range_def
      floor_h_def ceil_h_def hour_ns_def upt_rec)

theorem resample_full_timeline_witness:
  "\<exists>out. resample_data demo_two_keys = Inr (Hourly out) \<and>
     map hour (filter (\<lambda>h. group_key h = Some (''L1'', ''1'')) out)
       = [0, hour_ns, 2 * hour_ns, 3 * hour_ns, 4 * hour_ns] \<and>
     map hour (filter (\<lambda>h. group_key h = Some (''L2'', ''1'')) out)
       = [0, hour_ns, 2 * hour_ns, 3 * hour_ns, 4 * hour_ns] \<and>
     length (timeline demo_two_keys) = 5"
proof -
  have a: "\<exists>c \<in> set value_columns. c \<in> set (columns demo_two_keys)"
    by (simp add: value_columns_def demo_two_keys_def demo_columns_def)
  have b: "col_weizhi \<in> set (columns demo_two_keys) \<and> col_louceng \<in> set (columns demo_two_keys)"
    by (simp add: demo_two_keys_def demo_columns_def)
  have c: "rows demo_two_keys \<noteq> []"
    by (simp add: demo_two_keys_def)
  have d: "\<forall>r \<in> set (rows demo_two_keys). \<exists>r' \<in> set (rows demo_two_keys).
      key_of r' = key_of r \<and> datetime r' \<noteq> None"
    by (simp add: demo_two_keys_def mk_reading_def key_of_def)
  have k: "(''L1'', ''1'') \<in> key_of ` set (rows demo_two_keys)"
    "(''L2'', ''1'') \<in> key_of ` set (rows demo_two_keys)"
    by (simp_all add: demo_two_keys_def mk_reading_def key_of_def)
  show ?thesis
    using resample_full_timeline [OF a b c d] k
    by (auto simp: demo_two_keys_timeline)
qed

text \<open>
  As the claim words it, every table with the columns named has such an output. A table
  whose instants are all missing has a least instant NaT, and \<open>date_range\<close> refuses it; a
  table with a key whose instants are all missing fails when that key is resampled.
\<close>

theorem resample_all_instants_missing:
  "rows demo_no_instant \<noteq> [] \<and> col_shiwen_wendu \<in> set (columns demo_no_instant) \<and>
   col_weizhi \<in> set (columns demo_no_instant) \<and> col_louceng \<in> set (columns demo_no_instant) \<and>
   resample_data demo_no_instant = Inl ValueError \<and>
   columns demo_key_without_instant = columns demo_no_instant \<and>
   resample_data demo_key_without_instant = Inl ResampleError"
proof -
  have a: "resample_data demo_no_instant = Inl ValueError"
    by (simp add: resample_data_def demo_no_instant_def demo_columns_def value_columns_def
        mk_reading_def series_min_def series_max_def Let_def)
  have b: "resample_data demo_key_without_instant = Inl ResampleError"
    by (simp add: resample_data_def demo_key_without_instant_def demo_columns_def value_columns_def
        mk_reading_def series_min_def series_max_def Let_def groupby_def key_of_def resample_mean_def
        date_range_def floor_h_def ceil_h_def hour_ns_def)
  show ?thesis
    using a b by (simp add: demo_no_instant_def demo_key_without_instant_def demo_columns_def)
qed

section \<open>The resampler: the value of an hourly bucket\<close>

text \<open>
  Claim C4. In every hourly table the resampler returns, the value of a measurement in a
  row is the arithmetic mean of the values that are not missing among the readings of that
  row's key whose instant falls in that hour, and it is missing exactly when every such
  reading has the measurement missing (in particular when there is no such reading). The
  rows carry a key exactly when the table has the location and floor columns. On the sample
  table with the values 10, 20 and 30 within one hour, the value for that hour is 20.
\<close>

theorem hourly_bucket_mean:
  assumes ok: "resample_data df = Inr (Hourly out)"
    and h: "h \<in> set out"
    and c: "c \<in> set value_columns \<and> c \<in> set (columns df)"
  shows "map_of (means h) c
       = Some (mean_or_missing (hour_values (bucket_readings df h) c (hour h))) \<and>
     (map_of (means h) c = Some None \<longleftrightarrow>
        (\<forall>r \<in> set (bucket_readings df h). falls_in_hour (hour h) r \<longrightarrow> measure r c = None)) \<and>
     (group_key h \<noteq> None \<longleftrightarrow> col_weizhi \<in> set (columns df) \<and> col_louceng \<in> set (columns df))"
proof -
  define avail where "avail = filter (\<lambda>c. c \<in> set (columns df)) value_columns"
  have cav: "c \<in> set avail" using c by (simp add: avail_def)
  then have av: "avail \<noteq> []" by auto
  obtain lo hi where lo: "series_min (map datetime (rows df)) = Some lo"
    and hi: "series_max (map datetime (rows df)) = Some hi"
    using ok av
    by (cases "series_min (map datetime (rows df))"; cases "series_max (map datetime (rows df))")
       (simp_all add: resample_data_def Let_def avail_def [symmetric])
  define idx where "idx = date_range (floor_h lo) (ceil_h hi)"
  have al: "\<forall>t \<in> set idx. hour_ns dvd t"
    by (simp add: idx_def set_date_range floor_h_aligned ceil_h_aligned)
  have rne: "rows df \<noteq> []"
    using lo by (auto simp: series_min_def)
  have main: "map_of (means h) c
       = Some (mean_or_missing (hour_values (bucket_readings df h) c (hour h))) \<and>
     (group_key h \<noteq> None \<longleftrightarrow> col_weizhi \<in> set (columns df) \<and> col_louceng \<in> set (columns df))"
  proof (cases "col_weizhi \<in> set (columns df) \<and> col_louceng \<in> set (columns df)")
    case True
    from ok av lo hi True obtain parts where
      gr: "grouped_results avail idx (groupby (rows df)) = Inr parts" and out: "out = concat parts"
      by (auto simp: resample_data_def Let_def avail_def [symmetric] idx_def [symmetric]
          split: sum.splits if_splits)
    note rel = grouped_results_Inr [OF gr]
    have "h \<in> set (concat parts)" using h out by simp
    from parts_keys [OF rel this] obtain kg gh where kg: "kg \<in> set (groupby (rows df))"
      and rm: "resample_mean avail (snd kg) = Inr gh"
      and hin: "h \<in> set (map (\<lambda>p. \<lparr>hour = fst p, means = snd p, group_key = Some (fst kg)\<rparr>)
                              (reindex gh avail idx))"
      by blast
    from hin obtain p where p: "p \<in> set (reindex gh avail idx)"
      and he: "h = \<lparr>hour = fst p, means = snd p, group_key = Some (fst kg)\<rparr>"
      by (auto simp del: split_paired_Ex)
    have g: "snd kg = filter (\<lambda>r. key_of r = fst kg) (rows df)" and k: "fst kg \<in> key_of ` set (rows df)"
      using groupby_member [OF kg] by blast+
    have gne: "snd kg \<noteq> []"
      using k unfolding g by (auto simp: filter_empty_conv)
    have "map_of (snd p) c = Some (mean_or_missing (hour_values (snd kg) c (fst p)))"
      using rm gne al cav p by (rule reindexed_row)
    then show ?thesis
      using True by (simp add: he bucket_readings_def g)
  next
    case False
    from ok av lo hi False obtain gh where
      rm: "resample_mean avail (rows df) = Inr gh"
      and out: "out = map (\<lambda>p. \<lparr>hour = fst p, means = snd p, group_key = None\<rparr>) (reindex gh avail idx)"
      by (auto simp: resample_data_def Let_def avail_def [symmetric] idx_def [symmetric]
          split: sum.splits if_splits)
    from h out obtain p where p: "p \<in> set (reindex gh avail idx)"
      and he: "h = \<lparr>hour = fst p, means = snd p, group_key = None\<rparr>"
      by auto
    have "map_of (snd p) c = Some (mean_or_missing (hour_values (rows df) c (fst p)))"
      using rm rne al cav p by (rule reindexed_row)
    then show ?thesis
      using False by (simp add: he bucket_readings_def)
  qed
  then show ?thesis
    using hour_values_Nil_iff [of "bucket_readings df h" c "hour h"]
    by (simp add: mean_or_missing_None)
qed

lemma demo_one_hour_run:
  "resample_data demo_one_hour = Inr (Hourly
     [\<lparr>hour = 0, means = [(col_shiwen_wendu, Some 20)], group_key = Some (''L1'', ''1'')\<rparr>,
      \<lparr>hour = hour_ns, means = [(col_shiwen_wendu, None)], group_key = Some (''L1'', ''1'')\<rparr>])"
  by (simp add: resample_data_def demo_one_hour_def demo_columns_def value_columns_def col_defs mk_reading_def
     series_min_def series_max_def date_range_def floor_h_def ceil_h_def hour_ns_def groupby_def key_of_def Let_def
     resample_mean_def reindex_def in_bin_def nanmean_def upt_rec)

theorem hourly_bucket_mean_witness:
  "resample_data demo_one_hour = Inr (Hourly
     [\<lparr>hour = 0, means = [(col_shiwen_wendu, Some 20)], group_key = Some (''L1'', ''1'')\<rparr>,
      \<lparr>hour = hour_ns, means = [(col_shiwen_wendu, None)], group_key = Some (''L1'', ''1'')\<rparr>]) \<and>
   map (\<lambda>r. measure r col_shiwen_wendu) (rows demo_one_hour) = [Some 10, Some 20, Some 30] \<and>
   mean_or_missing (hour_values (rows demo_one_hour) col_shiwen_wendu 0) = Some 20"
proof -
  let ?h = "\<lparr>hour = 0, means = [(col_shiwen_wendu, Some 20)], group_key = Some (''L1'', ''1'')\<rparr>"
  have c: "col_shiwen_wendu \<in> set value_columns \<and> col_shiwen_wendu \<in> set (columns demo_one_hour)"
    by (simp add: value_columns_def demo_one_hour_def demo_columns_def)
  have b: "bucket_readings demo_one_hour ?h = rows demo_one_hour"
    by (simp add: bucket_readings_def demo_one_hour_def mk_reading_def key_of_def)
  have v: "map (\<lambda>r. measure r col_shiwen_wendu) (rows demo_one_hour) = [Some 10, Some 20, Some 30]"
    by (simp add: demo_one_hour_def mk_reading_def)
  show ?thesis
    using hourly_bucket_mean [OF demo_one_hour_run _ c, of ?h] demo_one_hour_run v
    by (simp add: b)
qed

section \<open>Facts about the rolling window\<close>

lemma filter_range_upt:
  "filter (\<lambda>j. lo \<le> int j \<and> int j \<le> hi) [0 ..< n] = [nat lo ..< min n (nat (hi + 1))]"
proof (induction n)
  case 0
  then show ?case by simp
next
  case (Suc n)
  show ?case
  proof (cases "lo \<le> int n \<and> int n \<le> hi")
    case True
    then have "min (Suc n) (nat (hi + 1)) = Suc n" "min n (nat (hi + 1)) = n" "nat lo \<le> n"
      by linarith+
    then show ?thesis using Suc True by simp
  next
    case False
    have "[nat lo ..< min (Suc n) (nat (hi + 1))] = [nat lo ..< min n (nat (hi + 1))]"
    proof (cases "int n \<le> hi")
      case True
      with False have "Suc n \<le> nat lo" by linarith
      then show ?thesis by simp
    next
      case False
      then have "nat (hi + 1) \<le> n" by linarith
      then show ?thesis by (simp add: min_def)
    qed
    then show ?thesis using Suc False by simp
  qed
qed

lemma slice_as_map_nth:
  assumes "e \<le> length xs"
  shows "take (e - s) (drop s xs) = map (\<lambda>j. xs ! j) [s ..< e]"
proof -
  have "take (e - s) (drop s xs) = drop s (take e xs)"
    by (simp add: drop_take)
  also have "take e xs = map (\<lambda>j. xs ! j) [0 ..< e]"
    using assms by (simp add: list_eq_iff_nth_eq)
  also have "drop s (map (\<lambda>j. xs ! j) [0 ..< e]) = map (\<lambda>j. xs ! j) [s ..< e]"
    by (simp add: drop_map)
  finally show ?thesis .
qed

lemma window_radii: "1 \<le> w \<Longrightarrow> (w - 1) div 2 + w div 2 = w - 1" for w :: int
  by presburger

lemma rolling_window_centred:
  assumes w: "1 \<le> w" and i: "i < length data"
  shows "rolling_window data w i = centred_window data (w div 2) ((w - 1) div 2) i"
proof -
  define n where "n = int (length data)"
  define e where "e = int i + 1 + (w - 1) div 2"
  define s where "s = e - w"
  have s_eq: "s = int i - w div 2"
    using window_radii [OF w] by (simp add: s_def e_def)
  have e0: "0 < e" using w unfolding e_def by presburger
  have sn: "s < n" using i w unfolding s_eq n_def by presburger
  have ec: "nat (min (max e 0) n) = min (length data) (nat e)"
    using e0 unfolding n_def by linarith
  have sc: "nat (min (max s 0) n) = nat s"
    using sn unfolding n_def by linarith
  have "rolling_window data w i = take (min (length data) (nat e) - nat s) (drop (nat s) data)"
    unfolding rolling_window_def Let_def e_def [symmetric] s_def [symmetric] n_def [symmetric]
    by (simp only: ec sc)
  also have "\<dots> = map (\<lambda>j. data ! j) [nat s ..< min (length data) (nat e)]"
    by (rule slice_as_map_nth) simp
  also have "[nat s ..< min (length data) (nat e)]
      = filter (\<lambda>j. int i - w div 2 \<le> int j \<and> int j \<le> int i + (w - 1) div 2) [0 ..< length data]"
  proof -
    have "int i + (w - 1) div 2 + 1 = e" by (simp add: e_def)
    then show ?thesis
      unfolding filter_range_upt by (simp only: s_eq)
  qed
  finally show ?thesis
    by (simp add: centred_window_def)
qed

lemma zip_same_maps: "zip (map f xs) (map g xs) = map (\<lambda>x. (f x, g x)) xs"
  by (induction xs) auto

lemma smooth_eq_band:
  assumes w: "1 \<le> w"
  shows "smooth_data_with_confidence norm_ppf data w c
     = Inr (band (norm_ppf (1 - (1 - c) / 2)) data w (w div 2) ((w - 1) div 2))"
proof -
  define z where "z = norm_ppf (1 - (1 - c) / 2)"
  define m where "m = max 1 (w div 2)"
  have valid: "\<not> (w < 0 \<or> w < m)"
    using w unfolding m_def by presburger
  have m1: "1 \<le> m" by (simp add: m_def)
  have sm: "rolling_mean data w m i = fst (band_at z data w (w div 2) ((w - 1) div 2) i)"
    if "i < length data" for i
    using m1 by (auto simp: rolling_mean_def band_at_def Let_def rolling_window_centred [OF w that]
        m_def [symmetric])
  have mg: "map_option (\<lambda>e. z * e) (map_option (\<lambda>s. s / sqrt (real_of_int w)) (rolling_std data w m i))
      = (let xs = present (centred_window data (w div 2) ((w - 1) div 2) i)
         in if m \<le> int (length xs) \<and> 2 \<le> length xs
            then Some (z * (sample_std xs / sqrt (real_of_int w))) else None)"
    if "i < length data" for i
    by (auto simp: rolling_std_def Let_def rolling_window_centred [OF w that])
  have lo: "nan_minus (rolling_mean data w m i)
        (map_option (\<lambda>e. z * e) (map_option (\<lambda>s. s / sqrt (real_of_int w)) (rolling_std data w m i)))
      = fst (snd (band_at z data w (w div 2) ((w - 1) div 2) i))"
    if "i < length data" for i
    unfolding mg [OF that] sm [OF that]
    by (simp add: band_at_def Let_def m_def [symmetric])
  have up: "nan_plus (rolling_mean data w m i)
        (map_option (\<lambda>e. z * e) (map_option (\<lambda>s. s / sqrt (real_of_int w)) (rolling_std data w m i)))
      = snd (snd (band_at z data w (w div 2) ((w - 1) div 2) i))"
    if "i < length data" for i
    unfolding mg [OF that] sm [OF that]
    by (simp add: band_at_def Let_def m_def [symmetric])
  have "smooth_data_with_confidence norm_ppf data w c
      = Inr (map (rolling_mean data w m) [0 ..< length data],
             map (\<lambda>i. nan_minus (rolling_mean data w m i)
                   (map_option (\<lambda>e. z * e) (map_option (\<lambda>s. s / sqrt (real_of_int w)) (rolling_std data w m i))))
                 [0 ..< length data],
             map (\<lambda>i. nan_plus (rolling_mean data w m i)
                   (map_option (\<lambda>e. z * e) (map_option (\<lambda>s. s / sqrt (real_of_int w)) (rolling_std data w m i))))
                 [0 ..< length data])"
    using valid
    by (simp add: smooth_data_with_confidence_def Let_def m_def [symmetric] z_def [symmetric]
        zip_same_maps comp_def)
  also have "\<dots> = Inr (band z data w (w div 2) ((w - 1) div 2))"
    unfolding band_def using sm lo up by (simp cong: map_cong)
  finally show ?thesis by (simp add: z_def)
qed

lemma band_nth:
  assumes "i < length data"
  shows "fst (band z data w l r) ! i = fst (band_at z data w l r i)"
    "fst (snd (band z data w l r)) ! i = fst (snd (band_at z data w l r i))"
    "snd (snd (band z data w l r)) ! i = snd (snd (band_at z data w l r i))"
  using assms by (simp_all add: band_def)

lemma band_length:
  "length (fst (band z data w l r)) = length data"
  "length (fst (snd (band z data w l r))) = length data"
  "length (snd (snd (band z data w l r))) = length data"
  by (simp_all add: band_def)

lemma smooth_Inr_window: "smooth_data_with_confidence norm_ppf data w c = Inr res \<Longrightarrow> 1 \<le> w"
  by (auto simp: smooth_data_with_confidence_def Let_def split: if_splits)

lemma sample_std_nonneg: "0 \<le> sample_std xs"
  unfolding sample_std_def Let_def
  by (intro real_sqrt_ge_zero divide_nonneg_nonneg sum_list_nonneg) auto

lemma upt_3: "[0 ..< 3] = [0, 1, 2]"
  by (simp add: upt_rec)


section \<open>Smoothing: what is computed\<close>

text \<open>
  Claim C2, as the code has it. For every series, window size \<open>w \<ge> 1\<close> and confidence
  level, \<open>smooth_data_with_confidence\<close> returns the band whose window at position \<open>i\<close>
  reaches \<open>w // 2\<close> positions back and \<open>(w - 1) // 2\<close> positions forward: the smoothed
  value is the mean of the values of the window that are not missing, once there are
  \<open>max(1, w // 2)\<close> of them, and missing otherwise; the margin is \<open>z\<close> times the standard
  deviation of the window over the root of \<open>w\<close>, where \<open>z\<close> is the normal quantile of
  \<open>1 - (1 - c) / 2\<close>; the bounds are the smoothed value less and plus the margin. For an
  odd \<open>w\<close> this is the window of the claim, \<open>w // 2\<close> to each side; for an even \<open>w\<close> the
  window reaches one position less forward.
\<close>

theorem smooth_is_centred_band:
  assumes "1 \<le> w"
  shows "smooth_data_with_confidence norm_ppf data w c
       = Inr (band (norm_ppf (1 - (1 - c) / 2)) data w (w div 2) ((w - 1) div 2)) \<and>
     (odd w \<longrightarrow> smooth_data_with_confidence norm_ppf data w c
       = Inr (claimed_band (norm_ppf (1 - (1 - c) / 2)) data w))"
proof -
  have "(w - 1) div 2 = w div 2" if "odd w"
    using that by presburger
  then show ?thesis
    using smooth_eq_band [OF assms] by (simp add: claimed_band_def)
qed

theorem smooth_is_centred_band_witness:
  "smooth_data_with_confidence (\<lambda>p. 2) [Some 1, Some 3, Some 5] 3 (95 / 100)
     = Inr (claimed_band 2 [Some 1, Some 3, Some 5] 3) \<and>
   fst (claimed_band 2 [Some 1, Some 3, Some 5] 3) = [Some 2, Some 3, Some 4]"
proof -
  have "fst (claimed_band 2 [Some 1, Some 3, Some 5] 3) = [Some 2, Some 3, Some 4]"
    by (simp add: claimed_band_def band_def band_at_def centred_window_def upt_3 Let_def)
  then show ?thesis
    using smooth_is_centred_band [of 3 "\<lambda>p. 2" "[Some 1, Some 3, Some 5]" "95 / 100"]
    by (simp add: claimed_band_def)
qed

text \<open>
  As the claim words it, the window reaches \<open>w // 2\<close> to each side for every \<open>w\<close>. With
  \<open>w = 2\<close> the window of position 1 is the positions 0 and 1, not 0 to 2.
\<close>

theorem even_window_is_not_symmetric:
  "(case smooth_data_with_confidence (\<lambda>p. 2) [Some 0, Some 0, Some 6] 2 (95 / 100) of
      Inl e \<Rightarrow> False
    | Inr res \<Rightarrow> fst res ! 1 = Some 0) \<and>
   fst (claimed_band 2 [Some 0, Some 0, Some 6] 2) ! 1 = Some 2"
proof -
  have a: "fst (band 2 [Some 0, Some 0, Some 6] 2 1 0) ! 1 = Some 0"
    by (simp add: band_def band_at_def centred_window_def upt_3 Let_def)
  have b: "fst (claimed_band 2 [Some 0, Some 0, Some 6] 2) ! 1 = Some 2"
    by (simp add: claimed_band_def band_def band_at_def centred_window_def upt_3 Let_def)
  have "smooth_data_with_confidence (\<lambda>p. 2) [Some 0, Some 0, Some 6] 2 (95 / 100)
      = Inr (band 2 [Some 0, Some 0, Some 6] 2 1 0)"
    using smooth_eq_band [of 2 "\<lambda>p. 2" "[Some 0, Some 0, Some 6]" "95 / 100"] by simp
  then show ?thesis
    using a b by simp
qed


section \<open>Smoothing: the order of the bounds\<close>

text \<open>
  Claim C3, for a quantile that is not negative. Whenever \<open>smooth_data_with_confidence\<close>
  returns and the quantile \<open>norm.ppf(1 - (1 - confidence) / 2)\<close> is not negative, as it is
  for every confidence level from 0 up to 1, the three series are as long as the input, and
  at every position where all three are present the lower bound is at most the smoothed
  value and the smoothed value at most the upper bound.
\<close>

theorem smoothing_bounds_ordered:
  assumes ok: "smooth_data_with_confidence norm_ppf data w c = Inr (smoothed, lower, upper)"
    and z: "0 \<le> norm_ppf (1 - (1 - c) / 2)"
    and i: "i < length data"
    and s: "smoothed ! i = Some s" and l: "lower ! i = Some l" and u: "upper ! i = Some u"
  shows "l \<le> s \<and> s \<le> u \<and>
     length smoothed = length data \<and> length lower = length data \<and> length upper = length data"
proof -
  define zz where "zz = norm_ppf (1 - (1 - c) / 2)"
  have w: "1 \<le> w" using ok by (rule smooth_Inr_window)
  have eq: "(smoothed, lower, upper) = band zz data w (w div 2) ((w - 1) div 2)"
    using smooth_eq_band [OF w, of norm_ppf data c] ok by (simp add: zz_def)
  define xs where "xs = present (centred_window data (w div 2) ((w - 1) div 2) i)"
  have sm: "smoothed = fst (band zz data w (w div 2) ((w - 1) div 2))"
    and lo: "lower = fst (snd (band zz data w (w div 2) ((w - 1) div 2)))"
    and up: "upper = snd (snd (band zz data w (w div 2) ((w - 1) div 2)))"
    using eq by (metis fst_conv snd_conv)+
  have len: "length smoothed = length data \<and> length lower = length data \<and> length upper = length data"
    by (simp add: sm lo up band_length)
  have w0: "0 < sqrt (real_of_int w)" using w by simp
  have mg: "0 \<le> zz * (sample_std xs / sqrt (real_of_int w))"
    using z w0 sample_std_nonneg [of xs] by (simp add: zz_def)
  have "l \<le> s \<and> s \<le> u"
    using s l u mg
    unfolding sm lo up band_nth [OF i] band_at_def Let_def xs_def [symmetric]
    by (auto simp: nan_minus_def nan_plus_def split: if_splits option.splits)
  then show ?thesis using len by simp
qed

theorem smoothing_bounds_ordered_witness:
  "\<exists>smoothed lower upper.
     smooth_data_with_confidence norm_ppf_sample [Some 1, Some 3, Some 5] 4 (95 / 100)
       = Inr (smoothed, lower, upper) \<and>
     smoothed ! 1 = Some 3 \<and> lower ! 1 = Some (104 / 100) \<and> upper ! 1 = Some (496 / 100) \<and>
     length smoothed = 3 \<and> length lower = 3 \<and> length upper = 3"
proof -
  let ?b = "band (196 / 100) [Some 1, Some 3, Some 5] 4 2 1"
  have run: "smooth_data_with_confidence norm_ppf_sample [Some 1, Some 3, Some 5] 4 (95 / 100)
      = Inr (fst ?b, fst (snd ?b), snd (snd ?b))"
    using smooth_eq_band [of 4 norm_ppf_sample "[Some 1, Some 3, Some 5]" "95 / 100"]
    by (simp add: norm_ppf_sample_def)
  have cw: "present (centred_window [Some 1, Some 3, Some 5] 2 1 1) = [1, 3, 5]"
    by (simp add: centred_window_def upt_3)
  have std: "sample_std [1, 3, 5] = 2"
    by (simp add: sample_std_def Let_def power2_eq_square)
  have at: "band_at (196 / 100) [Some 1, Some 3, Some 5] 4 2 1 1
      = (Some 3, Some (104 / 100), Some (496 / 100))"
    unfolding band_at_def Let_def cw
    by (simp add: std nan_minus_def nan_plus_def)
  have v: "fst ?b ! 1 = Some 3" "fst (snd ?b) ! 1 = Some (104 / 100)"
      "snd (snd ?b) ! 1 = Some (496 / 100)"
    using band_nth [of 1 "[Some 1, Some 3, Some 5]" "196 / 100" 4 2 1] unfolding at by simp_all
  have z: "0 \<le> norm_ppf_sample (1 - (1 - 95 / 100) / 2)" by (simp add: norm_ppf_sample_def)
  have i: "1 < length [Some (1::real), Some 3, Some 5]" by simp
  have "length (fst ?b) = 3 \<and> length (fst (snd ?b)) = 3 \<and> length (snd (snd ?b)) = 3"
    using smoothing_bounds_ordered [OF run z i v] by simp
  with run v show ?thesis by blast
qed

text \<open>
  As the claim words it, the order holds for every confidence level. The function does not
  check the confidence level: for the level -0.5 the quantile is \<open>norm.ppf(0.25)\<close>, which is
  negative, the margin is negative, and the lower bound lies above the smoothed value and
  the upper bound below it.
\<close>

theorem negative_confidence_reverses_bounds:
  "(case smooth_data_with_confidence norm_ppf_sample [Some 1, Some 3, Some 5] 4 (- (1 / 2)) of
      Inl e \<Rightarrow> False
    | Inr res \<Rightarrow> fst res ! 1 = Some 3 \<and> fst (snd res) ! 1 = Some (36745 / 10000) \<and>
        snd (snd res) ! 1 = Some (23255 / 10000)) \<and>
   \<not> (36745 / 10000 \<le> (3::real)) \<and> \<not> ((3::real) \<le> 23255 / 10000)"
proof -
  let ?z = "- (6745 / 10000) :: real"
  let ?b = "band ?z [Some 1, Some 3, Some 5] 4 2 1"
  have run: "smooth_data_with_confidence norm_ppf_sample [Some 1, Some 3, Some 5] 4 (- (1 / 2))
      = Inr ?b"
    using smooth_eq_band [of 4 norm_ppf_sample "[Some 1, Some 3, Some 5]" "- (1 / 2)"]
    by (simp add: norm_ppf_sample_def)
  have cw: "present (centred_window [Some 1, Some 3, Some 5] 2 1 1) = [1, 3, 5]"
    by (simp add: centred_window_def upt_3)
  have std: "sample_std [1, 3, 5] = 2"
    by (simp add: sample_std_def Let_def power2_eq_square)
  have at: "band_at ?z [Some 1, Some 3, Some 5] 4 2 1 1
      = (Some 3, Some (36745 / 10000), Some (23255 / 10000))"
    unfolding band_at_def Let_def cw
    by (simp add: std nan_minus_def nan_plus_def)
  have v: "fst ?b ! 1 = Some 3" "fst (snd ?b) ! 1 = Some (36745 / 10000)"
      "snd (snd ?b) ! 1 = Some (23255 / 10000)"
    using band_nth [of 1 "[Some 1, Some 3, Some 5]" ?z 4 2 1] unfolding at by simp_all
  show ?thesis
    unfolding run using v by simp
qed

section \<open>Smoothing: a window with a single value\<close>

text \<open>
  Claim C10. For a window size from 1 to 3 the threshold \<open>max(1, w // 2)\<close> is 1. The
  centred window of position \<open>i\<close> is the positions from \<open>i - w // 2\<close> to
  \<open>i + (w - 1) // 2\<close> that lie in the series. At a position whose centred window holds
  exactly one value that is not missing, at the position itself or at a neighbour, the
  smoothed value is that value, and both bounds are missing, since the standard deviation of
  one value is undefined.
\<close>

theorem single_value_window:
  assumes w: "1 \<le> w" "w \<le> 3" and i: "i < length data"
    and one: "present (centred_window data (w div 2) ((w - 1) div 2) i) = [v]"
  shows "\<exists>smoothed lower upper.
     smooth_data_with_confidence norm_ppf data w c = Inr (smoothed, lower, upper) \<and>
     smoothed ! i = Some v \<and> lower ! i = None \<and> upper ! i = None"
proof -
  define z where "z = norm_ppf (1 - (1 - c) / 2)"
  let ?b = "band z data w (w div 2) ((w - 1) div 2)"
  have run: "smooth_data_with_confidence norm_ppf data w c = Inr (fst ?b, fst (snd ?b), snd (snd ?b))"
    using smooth_eq_band [OF w(1), of norm_ppf data c] by (simp add: z_def)
  note cw = one
  have mp: "max 1 (w div 2) = 1" using w by presburger
  have at: "band_at z data w (w div 2) ((w - 1) div 2) i = (Some v, None, None)"
    unfolding band_at_def Let_def cw
    by (simp add: mp nan_minus_def nan_plus_def)
  have "fst ?b ! i = Some v \<and> fst (snd ?b) ! i = None \<and> snd (snd ?b) ! i = None"
    using band_nth [OF i, of z w "w div 2" "(w - 1) div 2"] by (simp add: at)
  with run show ?thesis by blast
qed

theorem single_value_window_witness:
  "present (centred_window [Some 7, None, None] (3 div 2) ((3 - 1) div 2) 1) = [7] \<and>
   (\<exists>smoothed lower upper.
     smooth_data_with_confidence norm_ppf_sample [Some 7, None, None] 3 (95 / 100) = Inr (smoothed, lower, upper) \<and>
     smoothed ! 1 = Some 7 \<and> lower ! 1 = None \<and> upper ! 1 = None)"
proof -
  have one: "present (centred_window [Some 7, None, None] (3 div 2) ((3 - 1) div 2) 1) = [7]"
    by (simp add: centred_window_def upt_3)
  show ?thesis
    using single_value_window [of 3 1 "[Some 7, None, None]" 7 norm_ppf_sample "95 / 100"] one
    by simp
qed

section \<open>Facts about the sort\<close>

lemma map_nth_filter: "map (\<lambda>i. xs ! i) (filter (\<lambda>i. P (xs ! i)) [0 ..< length xs]) = filter P xs"
proof -
  have "filter P xs = filter P (map (\<lambda>i. xs ! i) [0 ..< length xs])"
    by (simp add: map_nth)
  also have "\<dots> = map (\<lambda>i. xs ! i) (filter (\<lambda>i. P (xs ! i)) [0 ..< length xs])"
    by (simp add: filter_map comp_def)
  finally show ?thesis by simp
qed

lemma is_argsort_of_set:
  assumes "is_argsort_of xs p"
  shows "set p = {..< length xs}"
proof -
  have "mset p = mset [0 ..< length xs]"
    using assms by (simp add: is_argsort_of_def)
  then have "set p = set [0 ..< length xs]"
    by (rule mset_eq_setD)
  also have "\<dots> = {..< length xs}"
    by (simp only: set_upt atLeast0LessThan)
  finally show ?thesis .
qed

lemma present_filter: "present (map f rs) = map (\<lambda>r. the (f r)) (filter (\<lambda>r. f r \<noteq> None) rs)"
  by (induction rs) auto

lemma keys_present:
  "map (\<lambda>i. the (datetime (rs ! i))) (filter (\<lambda>i. datetime (rs ! i) \<noteq> None) [0 ..< length rs])
     = present (map datetime rs)"
proof -
  have a: "map (\<lambda>i. rs ! i) (filter (\<lambda>i. datetime (rs ! i) \<noteq> None) [0 ..< length rs])
      = filter (\<lambda>r. datetime r \<noteq> None) rs"
    by (rule map_nth_filter [of rs "\<lambda>r. datetime r \<noteq> None"])
  have "map (\<lambda>i. the (datetime (rs ! i))) (filter (\<lambda>i. datetime (rs ! i) \<noteq> None) [0 ..< length rs])
      = map (\<lambda>r. the (datetime r)) (map (\<lambda>i. rs ! i) (filter (\<lambda>i. datetime (rs ! i) \<noteq> None) [0 ..< length rs]))"
    by (simp add: comp_def)
  then show ?thesis
    unfolding a by (simp only: present_filter)
qed

lemma sort_values_parts:
  "sort_values_datetime argsort rs
     = map (\<lambda>j. rs ! (filter (\<lambda>i. datetime (rs ! i) \<noteq> None) [0 ..< length rs] ! j))
           (argsort (map (\<lambda>i. the (datetime (rs ! i)))
                         (filter (\<lambda>i. datetime (rs ! i) \<noteq> None) [0 ..< length rs])))
       @ filter (\<lambda>r. datetime r = None) rs"
proof -
  define nn where "nn = filter (\<lambda>i. datetime (rs ! i) \<noteq> None) [0 ..< length rs]"
  define keys where "keys = map (\<lambda>i. the (datetime (rs ! i))) nn"
  have a: "filter (\<lambda>i. map datetime rs ! i \<noteq> None) [0 ..< length rs] = nn"
    unfolding nn_def by (intro filter_cong refl) simp
  have b: "filter (\<lambda>i. map datetime rs ! i = None) [0 ..< length rs]
      = filter (\<lambda>i. datetime (rs ! i) = None) [0 ..< length rs]"
    by (intro filter_cong refl) simp
  have c: "map (\<lambda>i. the (map datetime rs ! i)) nn = keys"
    unfolding keys_def nn_def by (intro map_cong refl) simp
  have "sort_values_datetime argsort rs
      = map (\<lambda>i. rs ! i) (map (\<lambda>j. nn ! j) (argsort keys)
          @ filter (\<lambda>i. datetime (rs ! i) = None) [0 ..< length rs])"
    unfolding sort_values_datetime_def nargsort_def Let_def length_map a b c ..
  also have "\<dots> = map (\<lambda>j. rs ! (nn ! j)) (argsort keys)
      @ map (\<lambda>i. rs ! i) (filter (\<lambda>i. datetime (rs ! i) = None) [0 ..< length rs])"
    by (simp only: map_append map_map comp_def)
  also have "map (\<lambda>i. rs ! i) (filter (\<lambda>i. datetime (rs ! i) = None) [0 ..< length rs])
      = filter (\<lambda>r. datetime r = None) rs"
    by (rule map_nth_filter)
  finally show ?thesis
    unfolding nn_def keys_def .
qed


lemma upt_2: "[0 ..< 2] = [0, 1]"
  by (simp add: upt_rec)

lemma demo_unsorted_keys: "present (map datetime demo_unsorted) = [5, 0]"
  by (simp add: demo_unsorted_def mk_reading_def)

lemma npy_aquicksort_two: "npy_aquicksort [5, 0] = [1, 0]"
  by code_simp

lemma demo_unsorted_run:
  "sort_values_datetime npy_aquicksort demo_unsorted
     = [mk_reading (Some 0) ''L2'' ''1'' (Some 3),
        mk_reading (Some 5) ''L1'' ''1'' (Some 1),
        mk_reading None ''L1'' ''1'' (Some 2)]"
proof -
  have nn: "filter (\<lambda>i. datetime (demo_unsorted ! i) \<noteq> None) [0 ..< length demo_unsorted] = [0, 2]"
    by (simp add: demo_unsorted_def mk_reading_def upt_3)
  have keys: "map (\<lambda>i. the (datetime (demo_unsorted ! i))) [0, 2] = [5, 0]"
    by (simp add: demo_unsorted_def mk_reading_def)
  have "sort_values_datetime npy_aquicksort demo_unsorted
      = map (\<lambda>j. demo_unsorted ! ([0, 2] ! j)) [1, 0] @ filter (\<lambda>r. datetime r = None) demo_unsorted"
    by (simp only: sort_values_parts nn keys npy_aquicksort_two)
  then show ?thesis
    by (simp add: demo_unsorted_def mk_reading_def)
qed

lemma npy_aquicksort_equal:
  "npy_aquicksort [0, 0, 0, 0, 0, 0, 0, 0, 0, 0, 0, 0, 0, 0, 0, 0, 0]
     = [0, 14, 13, 12, 11, 10, 9, 15, 8, 6, 5, 4, 3, 2, 1, 7, 16]"
  by code_simp

lemma upt_17: "[0 ..< 17] = [0, 1, 2, 3, 4, 5, 6, 7, 8, 9, 10, 11, 12, 13, 14, 15, 16]"
  by (simp add: upt_rec)

lemma demo_equal_instants: "map datetime demo_equal = replicate 17 (Some 0)"
  by (simp add: demo_equal_def demo_rooms_def mk_reading_def eval_nat_numeral)

lemma demo_equal_rooms: "map weizhi demo_equal = demo_rooms"
  by (simp add: demo_equal_def mk_reading_def comp_def)

lemma demo_equal_run:
  "sort_values_datetime npy_aquicksort demo_equal
     = map (\<lambda>i. demo_equal ! i) [0, 14, 13, 12, 11, 10, 9, 15, 8, 6, 5, 4, 3, 2, 1, 7, 16]"
proof -
  have len: "length demo_equal = 17"
    by (simp add: demo_equal_def demo_rooms_def)
  have dt: "datetime (demo_equal ! i) = Some 0" if "i < 17" for i
    using that nth_map [of i demo_equal datetime] len
    by (simp add: demo_equal_instants del: nth_map)
  have nn: "filter (\<lambda>i. datetime (demo_equal ! i) \<noteq> None) [0 ..< length demo_equal] = [0 ..< 17]"
    unfolding len by (rule filter_True) (simp add: dt)
  have nat_rows: "filter (\<lambda>r. datetime r = None) demo_equal = []"
    by (simp add: demo_equal_def mk_reading_def filter_empty_conv)
  have keys: "map (\<lambda>i. the (datetime (demo_equal ! i))) [0 ..< 17]
      = [0, 0, 0, 0, 0, 0, 0, 0, 0, 0, 0, 0, 0, 0, 0, 0, 0]"
    by (simp add: upt_17 demo_equal_def demo_rooms_def mk_reading_def)
  have "sort_values_datetime npy_aquicksort demo_equal
      = map (\<lambda>j. demo_equal ! ([0 ..< 17] ! j)) [0, 14, 13, 12, 11, 10, 9, 15, 8, 6, 5, 4, 3, 2, 1, 7, 16] @ []"
    by (simp only: sort_values_parts nn keys npy_aquicksort_equal nat_rows)
  then show ?thesis
    by (simp add: upt_17)
qed

section \<open>Temporal normalization: the order of the rows\<close>

text \<open>
  Claim C8, as the code has it. Whenever \<open>argsort\<close> returns the positions of the instants,
  each once, in ascending order of the instants, which is what numpy documents for every
  kind of sort, the sorted table has the rows of the input, each as often as before; the
  rows that have an instant come first, in ascending order of the instant, and the rows
  without an instant come last, in the order they had. Nothing is said of the order of rows
  with equal instants: the call asks for the default kind, which is not a stable one.
\<close>

theorem sort_values_sorted:
  assumes sp: "is_argsort_of (present (map datetime rs)) (argsort (present (map datetime rs)))"
  shows "mset (sort_values_datetime argsort rs) = mset rs \<and>
     sorted (present (map datetime (sort_values_datetime argsort rs))) \<and>
     map datetime (sort_values_datetime argsort rs)
       = map Some (present (map datetime (sort_values_datetime argsort rs)))
         @ replicate (length (filter (\<lambda>r. datetime r = None) rs)) None \<and>
     filter (\<lambda>r. datetime r = None) (sort_values_datetime argsort rs)
       = filter (\<lambda>r. datetime r = None) rs"
proof -
  define nn where "nn = filter (\<lambda>i. datetime (rs ! i) \<noteq> None) [0 ..< length rs]"
  define keys where "keys = map (\<lambda>i. the (datetime (rs ! i))) nn"
  define front where "front = map (\<lambda>j. rs ! (nn ! j)) (argsort keys)"
  define behind where "behind = filter (\<lambda>r. datetime r = None) rs"
  have kp: "keys = present (map datetime rs)"
    unfolding keys_def nn_def by (rule keys_present)
  have sp': "is_argsort_of keys (argsort keys)"
    using sp by (simp only: kp)
  have out: "sort_values_datetime argsort rs = front @ behind"
    using sort_values_parts [of argsort rs] by (simp add: front_def behind_def nn_def keys_def)
  have lk: "length keys = length nn" by (simp add: keys_def)
  have inb: "j < length nn" if "j \<in> set (argsort keys)" for j
    using that is_argsort_of_set [OF sp'] lk by auto
  have dt: "datetime (rs ! (nn ! j)) = Some (keys ! j)" if "j < length nn" for j
  proof -
    have "nn ! j \<in> set nn" using that by simp
    then have "datetime (rs ! (nn ! j)) \<noteq> None" by (simp add: nn_def)
    then show ?thesis using that by (auto simp: keys_def)
  qed
  have fd: "map datetime front = map Some (map (\<lambda>j. keys ! j) (argsort keys))"
    unfolding front_def using inb dt by (simp add: comp_def)
  have bd: "map datetime behind = replicate (length behind) None"
    unfolding behind_def by (induction rs) auto
  have pf: "present (map datetime (front @ behind)) = map (\<lambda>j. keys ! j) (argsort keys)"
  proof -
    have p1: "present (map Some ys) = ys" for ys :: "int list" by (induction ys) auto
    have p2: "present (replicate n None) = []" for n by (induction n) auto
    have p3: "present (as @ bs) = present as @ present bs" for as bs :: "int option list"
      by (induction as rule: present.induct) auto
    have "map datetime (front @ behind)
        = map Some (map (\<lambda>j. keys ! j) (argsort keys)) @ replicate (length behind) None"
      by (simp only: map_append fd bd)
    then show ?thesis by (simp only: p3 p1 p2 append_Nil2)
  qed
  have srt: "sorted (present (map datetime (front @ behind)))"
    unfolding pf using sp' by (simp add: is_argsort_of_def)
  have shape: "map datetime (front @ behind)
      = map Some (present (map datetime (front @ behind))) @ replicate (length behind) None"
    unfolding pf using fd bd by simp
  have fnone: "filter (\<lambda>r. datetime r = None) front = []"
  proof -
    have "\<forall>r \<in> set front. datetime r \<noteq> None"
      unfolding front_def using inb dt by auto
    then show ?thesis by (simp add: filter_empty_conv)
  qed
  have nat_rows: "filter (\<lambda>r. datetime r = None) (front @ behind) = behind"
    using fnone by (simp add: behind_def)
  have ms: "mset (front @ behind) = mset rs"
  proof -
    have "mset front = image_mset (\<lambda>j. rs ! (nn ! j)) (mset (argsort keys))"
      by (simp add: front_def)
    also have "mset (argsort keys) = mset [0 ..< length nn]"
      using sp' by (simp add: is_argsort_of_def lk)
    also have "image_mset (\<lambda>j. rs ! (nn ! j)) (mset [0 ..< length nn])
        = mset (map (\<lambda>i. rs ! i) (map (\<lambda>j. nn ! j) [0 ..< length nn]))"
      by (simp add: comp_def)
    also have "map (\<lambda>j. nn ! j) [0 ..< length nn] = nn"
      by (rule map_nth)
    also have "map (\<lambda>i. rs ! i) nn = filter (\<lambda>r. datetime r \<noteq> None) rs"
      unfolding nn_def by (rule map_nth_filter)
    finally have "mset front = mset (filter (\<lambda>r. datetime r \<noteq> None) rs)" .
    then show ?thesis
      unfolding behind_def by (simp add: union_commute)
  qed
  from ms srt shape nat_rows show ?thesis
    unfolding out behind_def by blast
qed

theorem sort_values_sorted_witness:
  "is_argsort_of (present (map datetime demo_unsorted))
     (npy_aquicksort (present (map datetime demo_unsorted))) \<and>
   sort_values_datetime npy_aquicksort demo_unsorted
     = [mk_reading (Some 0) ''L2'' ''1'' (Some 3),
        mk_reading (Some 5) ''L1'' ''1'' (Some 1),
        mk_reading None ''L1'' ''1'' (Some 2)] \<and>
   mset (sort_values_datetime npy_aquicksort demo_unsorted) = mset demo_unsorted \<and>
   sorted (present (map datetime (sort_values_datetime npy_aquicksort demo_unsorted)))"
proof -
  have sp: "is_argsort_of (present (map datetime demo_unsorted))
      (npy_aquicksort (present (map datetime demo_unsorted)))"
    unfolding demo_unsorted_keys npy_aquicksort_two
    by (simp add: is_argsort_of_def upt_2)
  show ?thesis
    using sort_values_sorted [of demo_unsorted npy_aquicksort] sp demo_unsorted_run by blast
qed

text \<open>
  As the claim words it, rows with equal instants keep their order. On seventeen rows of
  one instant numpy's quicksort runs one partition step, which swaps the positions around
  the pivot: the rooms come out in another order than they went in.
\<close>

theorem equal_instants_reordered:
  "map datetime demo_equal = replicate 17 (Some 0) \<and>
   map weizhi demo_equal
     = [''R00'', ''R01'', ''R02'', ''R03'', ''R04'', ''R05'', ''R06'', ''R07'', ''R08'',
        ''R09'', ''R10'', ''R11'', ''R12'', ''R13'', ''R14'', ''R15'', ''R16''] \<and>
   map weizhi (sort_values_datetime npy_aquicksort demo_equal)
     = [''R00'', ''R14'', ''R13'', ''R12'', ''R11'', ''R10'', ''R09'', ''R15'', ''R08'',
        ''R06'', ''R05'', ''R04'', ''R03'', ''R02'', ''R01'', ''R07'', ''R16''] \<and>
   \<not> keeps_tie_order demo_equal (sort_values_datetime npy_aquicksort demo_equal)"
proof -
  have a: "map weizhi demo_equal
     = [''R00'', ''R01'', ''R02'', ''R03'', ''R04'', ''R05'', ''R06'', ''R07'', ''R08'',
        ''R09'', ''R10'', ''R11'', ''R12'', ''R13'', ''R14'', ''R15'', ''R16'']"
    by (simp add: demo_equal_rooms demo_rooms_def)
  have b: "map weizhi (sort_values_datetime npy_aquicksort demo_equal)
     = [''R00'', ''R14'', ''R13'', ''R12'', ''R11'', ''R10'', ''R09'', ''R15'', ''R08'',
        ''R06'', ''R05'', ''R04'', ''R03'', ''R02'', ''R01'', ''R07'', ''R16'']"
    unfolding demo_equal_run by (simp add: demo_equal_def demo_rooms_def mk_reading_def)
  have all: "filter (\<lambda>r. datetime r = Some 0) rs = rs"
    if "map datetime rs = replicate (length rs) (Some 0)" for rs :: "reading list"
  proof (rule filter_True, rule ballI)
    fix r assume "r \<in> set rs"
    then have "datetime r \<in> set (map datetime rs)" by simp
    then show "datetime r = Some 0" unfolding that by simp
  qed
  have lo: "length (sort_values_datetime npy_aquicksort demo_equal) = 17"
    unfolding demo_equal_run by simp
  have dto: "map datetime (sort_values_datetime npy_aquicksort demo_equal) = replicate 17 (Some 0)"
    unfolding demo_equal_run by (simp add: demo_equal_def demo_rooms_def mk_reading_def eval_nat_numeral)
  have f1: "filter (\<lambda>r. datetime r = Some 0) demo_equal = demo_equal"
    using all [of demo_equal] demo_equal_instants by (simp add: demo_equal_def demo_rooms_def eval_nat_numeral)
  have f2: "filter (\<lambda>r. datetime r = Some 0) (sort_values_datetime npy_aquicksort demo_equal)
      = sort_values_datetime npy_aquicksort demo_equal"
    using all [of "sort_values_datetime npy_aquicksort demo_equal"] dto lo by simp
  have ne: "sort_values_datetime npy_aquicksort demo_equal \<noteq> demo_equal"
  proof
    assume "sort_values_datetime npy_aquicksort demo_equal = demo_equal"
    then have "map weizhi (sort_values_datetime npy_aquicksort demo_equal) = map weizhi demo_equal"
      by simp
    then show False unfolding a b by simp
  qed
  have c: "\<not> keeps_tie_order demo_equal (sort_values_datetime npy_aquicksort demo_equal)"
  proof
    assume "keeps_tie_order demo_equal (sort_values_datetime npy_aquicksort demo_equal)"
    then have "\<forall>t \<in> set (map datetime demo_equal).
        filter (\<lambda>r. datetime r = t) (sort_values_datetime npy_aquicksort demo_equal)
          = filter (\<lambda>r. datetime r = t) demo_equal"
      unfolding keeps_tie_order_def list_all_iff .
    moreover have "Some 0 \<in> set (map datetime demo_equal)"
      unfolding demo_equal_instants by simp
    ultimately have "filter (\<lambda>r. datetime r = Some 0) (sort_values_datetime npy_aquicksort demo_equal)
          = filter (\<lambda>r. datetime r = Some 0) demo_equal"
      by blast
    then show False using f1 f2 ne by simp
  qed
  show ?thesis
    using demo_equal_instants a b c by blast
qed

end
